theory Spec2Isabelle
  imports Complex_Main "HOL-Library.AList" "HOL-Library.Multiset"
begin

section \<open>Common ground: exceptions, loops that may raise, the random module\<close>

text \<open>
  The Python exceptions that the modelled functions can raise. A function that can raise
  returns \<open>error + 'a\<close>, with \<open>Inl\<close> for the exception.
\<close>

datatype error = KeyError | ValueError | IndexError

text \<open>
  A \<^verbatim>\<open>for x in xs:\<close> loop whose body updates a state and may raise: the loop stops
  at the first exception.
\<close>

fun fold_err :: "('a \<Rightarrow> 's \<Rightarrow> error + 's) \<Rightarrow> 'a list \<Rightarrow> 's \<Rightarrow> error + 's" where
  "fold_err f [] s = Inr s"
| "fold_err f (x # xs) s = (case f x s of Inl e \<Rightarrow> Inl e | Inr s' \<Rightarrow> fold_err f xs s')"

text \<open>
  The module-level generator \<^verbatim>\<open>random\<close> is a supply of raw draws: a caller hands one raw
  natural number to each call. \<^verbatim>\<open>random.randint(a, b)\<close> returns an integer of \<open>[a, b]\<close>
  and raises \<^verbatim>\<open>ValueError\<close> on an empty range; every value of the range is the image
  of some raw draw.
\<close>

definition randint :: "nat \<Rightarrow> int \<Rightarrow> int \<Rightarrow> error + int" where
  "randint r a b = (if b < a then Inl ValueError else Inr (a + int r mod (b - a + 1)))"

section \<open>The online greedy scheduler: class \<^verbatim>\<open>DroneTaskScheduler\<close>\<close>

subsection \<open>State\<close>

type_synonym pos = "int \<times> int"

text \<open>One entry of \<^verbatim>\<open>assigned_tasks[drone]\<close>: the dict with keys sensor, time, distance.\<close>

record task =
  task_sensor :: int
  task_time :: real
  task_distance :: real

text \<open>
  The attributes of a \<^verbatim>\<open>DroneTaskScheduler\<close>. \<^verbatim>\<open>drone_positions\<close> is iterated by
  \<^verbatim>\<open>schedule_task\<close>, so it is an association list in insertion order;
  \<^verbatim>\<open>assigned_tasks\<close> is a \<^verbatim>\<open>defaultdict(list)\<close>: a missing key reads as the empty
  list. Batteries are Python floats (\<^verbatim>\<open>100.0\<close>), modelled as reals.
\<close>

record registry =
  num_drones :: int
  num_sensors :: int
  drone_positions :: "(int \<times> pos) list"
  sensor_positions :: "int \<rightharpoonup> pos"
  drone_battery :: "int \<rightharpoonup> real"
  task_queue :: "task list"
  assigned_tasks :: "int \<rightharpoonup> task list"

subsection \<open>\<^verbatim>\<open>_initialize_positions\<close>\<close>

text \<open>\<^verbatim>\<open>grid_size = int(math.sqrt(self.num_sensors)) + 2\<close>; \<^verbatim>\<open>math.sqrt\<close> raises
  \<^verbatim>\<open>ValueError\<close> on a negative argument, \<^verbatim>\<open>int\<close> truncates.\<close>

definition grid_size :: "int \<Rightarrow> error + nat" where
  "grid_size n = (if n < 0 then Inl ValueError else Inr (nat \<lfloor>sqrt (real_of_int n)\<rfloor> + 2))"

text \<open>The grid size in the specification's words: \<open>ceil(sqrt(num_sensors)) + 2\<close>.\<close>

definition ceil_grid_size :: "int \<Rightarrow> nat" where
  "ceil_grid_size n = nat \<lceil>sqrt (real_of_int n)\<rceil> + 2"

text \<open>The body of the two nested sensor loops; the state is the dict and \<^verbatim>\<open>sensor_idx\<close>.\<close>

definition place_sensor :: "int \<Rightarrow> nat \<Rightarrow> nat \<Rightarrow> (int \<rightharpoonup> pos) \<times> int \<Rightarrow> (int \<rightharpoonup> pos) \<times> int" where
  "place_sensor n i j = (\<lambda>(sp, sensor_idx).
     if sensor_idx < n then (sp(100 + sensor_idx \<mapsto> (int i * 10, int j * 10)), sensor_idx + 1)
     else (sp, sensor_idx))"

definition place_sensors :: "int \<Rightarrow> nat \<Rightarrow> (int \<rightharpoonup> pos) \<times> int" where
  "place_sensors n g = fold (\<lambda>i. fold (\<lambda>j. place_sensor n i j) [0..<g]) [0..<g] (Map.empty, 0)"

text \<open>The sensor dict once the sensors \<open>0, \<dots>, c - 1\<close> are placed, row after row, on a
  grid of \<open>g\<close> cells per row.\<close>

definition grid_upto :: "nat \<Rightarrow> int \<Rightarrow> int \<rightharpoonup> pos" where
  "grid_upto g c = (\<lambda>key. if 100 \<le> key \<and> key < 100 + c
      then Some (10 * ((key - 100) div int g), 10 * ((key - 100) mod int g)) else None)"

text \<open>The body of the drone loop: drone \<open>i\<close> takes the raw draws \<open>2 i\<close> and \<open>2 i + 1\<close>.\<close>

definition place_drone ::
  "(nat \<Rightarrow> nat) \<Rightarrow> nat \<Rightarrow> nat \<Rightarrow> (int \<times> pos) list \<times> (int \<rightharpoonup> real)
     \<Rightarrow> error + (int \<times> pos) list \<times> (int \<rightharpoonup> real)" where
  "place_drone rng g i = (\<lambda>(dp, bat).
     let drone_id = 50 + int i in
     case randint (rng (2 * i)) 0 (int g * 10) of Inl e \<Rightarrow> Inl e
     | Inr x \<Rightarrow>
        (case randint (rng (2 * i + 1)) 0 (int g * 10) of Inl e \<Rightarrow> Inl e
         | Inr y \<Rightarrow> Inr (AList.update drone_id (x, y) dp, bat(drone_id \<mapsto> 100))))"

text \<open>\<^verbatim>\<open>__init__\<close> followed by \<^verbatim>\<open>_initialize_positions\<close>.\<close>

definition DroneTaskScheduler :: "(nat \<Rightarrow> nat) \<Rightarrow> int \<Rightarrow> int \<Rightarrow> error + registry" where
  "DroneTaskScheduler rng nd ns =
     (case grid_size ns of Inl e \<Rightarrow> Inl e
      | Inr g \<Rightarrow>
         (case fold_err (place_drone rng g) [0..<nat nd] ([], Map.empty) of Inl e \<Rightarrow> Inl e
          | Inr (dp, bat) \<Rightarrow>
              Inr \<lparr>num_drones = nd, num_sensors = ns, drone_positions = dp,
                   sensor_positions = fst (place_sensors ns g), drone_battery = bat,
                   task_queue = [], assigned_tasks = Map.empty\<rparr>))"

subsection \<open>\<^verbatim>\<open>calculate_distance\<close> and \<^verbatim>\<open>schedule_task\<close>\<close>

definition calculate_distance :: "pos \<Rightarrow> pos \<Rightarrow> real" where
  "calculate_distance pos1 pos2 =
     sqrt (real_of_int ((fst pos1 - fst pos2)\<^sup>2 + (snd pos1 - snd pos2)\<^sup>2))"

text \<open>\<^verbatim>\<open>min_cost\<close> starts as \<^verbatim>\<open>float('inf')\<close>: \<open>None\<close> stands for infinity.\<close>

definition below :: "real \<Rightarrow> real option \<Rightarrow> bool" where
  "below cost min_cost = (case min_cost of None \<Rightarrow> True | Some m \<Rightarrow> cost < m)"

text \<open>The cost of sending a drone at \<open>drone_pos\<close> with battery \<open>b\<close> to the sensor:
  the locals \<^verbatim>\<open>distance\<close>, \<^verbatim>\<open>battery_penalty\<close> and \<^verbatim>\<open>cost\<close> of the loop body.\<close>

definition cost :: "pos \<Rightarrow> pos \<Rightarrow> real \<Rightarrow> real" where
  "cost drone_pos sensor_pos b =
     (let dist = calculate_distance drone_pos sensor_pos;
          battery_penalty = (100 - b) * 0.5
      in dist + battery_penalty)"

text \<open>The body of the loop over \<^verbatim>\<open>self.drone_positions.items()\<close>; the state is
  \<^verbatim>\<open>(best_drone, min_cost)\<close>. Reading the battery of a drone without one raises.\<close>

definition greedy_step ::
  "(int \<rightharpoonup> real) \<Rightarrow> pos \<Rightarrow> int \<times> pos \<Rightarrow> int option \<times> real option
     \<Rightarrow> error + int option \<times> real option" where
  "greedy_step bat sensor_pos = (\<lambda>(drone_id, drone_pos) (best_drone, min_cost).
     case bat drone_id of None \<Rightarrow> Inl KeyError
     | Some b \<Rightarrow>
        if b > 20 \<and> below (cost drone_pos sensor_pos b) min_cost
        then Inr (Some drone_id, Some (cost drone_pos sensor_pos b))
        else Inr (best_drone, min_cost))"

text \<open>\<^verbatim>\<open>if best_drone:\<close> is a truth test: \<^verbatim>\<open>None\<close> and the integer 0 are both false.\<close>

definition truthy :: "int option \<Rightarrow> bool" where
  "truthy b = (case b of None \<Rightarrow> False | Some d \<Rightarrow> d \<noteq> 0)"

definition get_tasks :: "(int \<rightharpoonup> task list) \<Rightarrow> int \<Rightarrow> task list" where
  "get_tasks m d = (case m d of None \<Rightarrow> [] | Some ts \<Rightarrow> ts)"

text \<open>The state changes of a successful assignment of drone \<open>d\<close>, at position \<open>p\<close> with
  battery \<open>b\<close>, to the sensor at \<open>sensor_pos\<close>.\<close>

definition assign :: "registry \<Rightarrow> int \<Rightarrow> pos \<Rightarrow> real \<Rightarrow> int \<Rightarrow> pos \<Rightarrow> real \<Rightarrow> registry" where
  "assign s d p b sensor_id sensor_pos current_time =
     s\<lparr>assigned_tasks := (assigned_tasks s)(d \<mapsto> get_tasks (assigned_tasks s) d @
            [\<lparr>task_sensor = sensor_id, task_time = current_time,
              task_distance = calculate_distance p sensor_pos\<rparr>]),
       drone_positions := AList.update d sensor_pos (drone_positions s),
       drone_battery := (drone_battery s)(d \<mapsto> b - min 5 b)\<rparr>"

definition schedule_task :: "registry \<Rightarrow> int \<Rightarrow> real \<Rightarrow> error + int option \<times> registry" where
  "schedule_task s sensor_id current_time =
     (case sensor_positions s sensor_id of None \<Rightarrow> Inr (None, s)
      | Some sensor_pos \<Rightarrow>
         (case fold_err (greedy_step (drone_battery s) sensor_pos) (drone_positions s) (None, None) of
            Inl e \<Rightarrow> Inl e
          | Inr (best_drone, min_cost) \<Rightarrow>
             if truthy best_drone then
               (case best_drone of None \<Rightarrow> Inr (None, s)
                | Some d \<Rightarrow>
                   (case map_of (drone_positions s) d of None \<Rightarrow> Inl KeyError
                    | Some p \<Rightarrow>
                       (case drone_battery s d of None \<Rightarrow> Inl KeyError
                        | Some b \<Rightarrow>
                            Inr (Some d, assign s d p b sensor_id sensor_pos current_time))))
             else Inr (None, s)))"

subsection \<open>\<^verbatim>\<open>recharge_drone\<close>\<close>

definition recharge_drone :: "registry \<Rightarrow> int \<Rightarrow> registry" where
  "recharge_drone s drone_id =
     (case drone_battery s drone_id of None \<Rightarrow> s
      | Some b \<Rightarrow> s\<lparr>drone_battery := (drone_battery s)(drone_id \<mapsto> min 100 (b + 20))\<rparr>)"

subsection \<open>The states a scheduler object can be in\<close>

text \<open>A registry state is what the constructor builds and what any sequence of
  \<^verbatim>\<open>schedule_task\<close> and \<^verbatim>\<open>recharge_drone\<close> calls makes of it.\<close>

inductive reachable :: "registry \<Rightarrow> bool" where
  init: "DroneTaskScheduler rng nd ns = Inr s \<Longrightarrow> reachable s"
| sched: "reachable s \<Longrightarrow> schedule_task s sensor_id t = Inr (r, s') \<Longrightarrow> reachable s'"
| rech: "reachable s \<Longrightarrow> reachable (recharge_drone s drone_id)"

text \<open>What the constructor establishes and every call keeps: \<^verbatim>\<open>drone_positions\<close> is a
  dict (no key twice), it has the keys of \<^verbatim>\<open>drone_battery\<close>, and no drone has the id 0
  (the constructor numbers the drones from 50).\<close>

definition well_formed :: "registry \<Rightarrow> bool" where
  "well_formed s \<longleftrightarrow>
     distinct (map fst (drone_positions s)) \<and>
     fst ` set (drone_positions s) = dom (drone_battery s) \<and>
     0 \<notin> dom (drone_battery s)"

subsection \<open>Concrete registries\<close>

text \<open>Two drones at (0,0) and (100,0) with full batteries, one sensor at (5,0).\<close>

definition two_drones :: registry where
  "two_drones = \<lparr>num_drones = 2, num_sensors = 1,
     drone_positions = [(50, (0, 0)), (51, (100, 0))],
     sensor_positions = [100 \<mapsto> (5, 0)],
     drone_battery = [50 \<mapsto> 100, 51 \<mapsto> 100],
     task_queue = [], assigned_tasks = Map.empty\<rparr>"

text \<open>A single drone whose battery is at 15.\<close>

definition low_drone :: registry where
  "low_drone = \<lparr>num_drones = 1, num_sensors = 1,
     drone_positions = [(50, (0, 0))],
     sensor_positions = [100 \<mapsto> (5, 0)],
     drone_battery = [50 \<mapsto> 15],
     task_queue = [], assigned_tasks = Map.empty\<rparr>"

text \<open>What \<^verbatim>\<open>DroneTaskScheduler(1, 1)\<close> builds when every raw draw is 0.\<close>

definition one_drone :: registry where
  "one_drone = \<lparr>num_drones = 1, num_sensors = 1,
     drone_positions = [(50, (0, 0))],
     sensor_positions = [100 \<mapsto> (0, 0)],
     drone_battery = [50 \<mapsto> 100],
     task_queue = [], assigned_tasks = Map.empty\<rparr>"

section \<open>The batch optimizer: class \<^verbatim>\<open>TaskScheduler\<close>\<close>

subsection \<open>Data\<close>

text \<open>
  An element of the arguments \<^verbatim>\<open>drone_positions\<close> and \<^verbatim>\<open>sensor_positions\<close> is the
  tuple \<^verbatim>\<open>(x, y, node_id)\<close>; the coordinates are Python floats, modelled as reals. The
  two arguments are called \<open>drone_nodes\<close> and \<open>sensor_nodes\<close> here, the registry having
  fields of their names.
\<close>

type_synonym node = "real \<times> real \<times> string"

definition xy :: "node \<Rightarrow> real \<times> real" where
  "xy n = (fst n, fst (snd n))"

definition node_id :: "node \<Rightarrow> string" where
  "node_id n = snd (snd n)"

text \<open>
  Every assignment dict of the class is built as \<^verbatim>\<open>{i: [] for i in range(n)}\<close> and only
  ever appended to at existing keys: its keys are \<open>0, \<dots>, n - 1\<close> in this order. It is the
  list of its values, the key being the index. Reading a key that is not there raises
  \<^verbatim>\<open>KeyError\<close>.
\<close>

type_synonym assignment = "node list list"

definition dict_append :: "assignment \<Rightarrow> nat \<Rightarrow> node \<Rightarrow> error + assignment" where
  "dict_append a i x = (if i < length a then Inr (a[i := a ! i @ [x]]) else Inl KeyError)"

text \<open>\<^verbatim>\<open>TaskScheduler.calculate_distance\<close> reads the components 0 and 1 of its arguments.\<close>

definition ts_calculate_distance :: "real \<times> real \<Rightarrow> real \<times> real \<Rightarrow> real" where
  "ts_calculate_distance pos1 pos2 = sqrt ((fst pos1 - fst pos2)\<^sup>2 + (snd pos1 - snd pos2)\<^sup>2)"

subsection \<open>\<^verbatim>\<open>k_means_clustering_assignment\<close>\<close>

text \<open>\<^verbatim>\<open>min(xs)\<close> raises \<^verbatim>\<open>ValueError\<close> on an empty list; \<^verbatim>\<open>xs.index(v)\<close> is the
  first index holding \<open>v\<close> and raises \<^verbatim>\<open>ValueError\<close> when there is none.\<close>

definition py_min :: "real list \<Rightarrow> error + real" where
  "py_min xs = (case xs of [] \<Rightarrow> Inl ValueError | x # rest \<Rightarrow> Inr (fold min rest x))"

fun py_index :: "real list \<Rightarrow> real \<Rightarrow> error + nat" where
  "py_index [] v = Inl ValueError"
| "py_index (x # xs) v =
     (if x = v then Inr 0
      else case py_index xs v of Inl e \<Rightarrow> Inl e | Inr i \<Rightarrow> Inr (Suc i))"

text \<open>The body of the loop over the sensors.\<close>

definition kmeans_step :: "(real \<times> real) list \<Rightarrow> node \<Rightarrow> assignment \<Rightarrow> error + assignment" where
  "kmeans_step centroids sensor assignments =
     (let distances = map (\<lambda>centroid. ts_calculate_distance centroid (xy sensor)) centroids in
      case py_min distances of Inl e \<Rightarrow> Inl e
      | Inr m \<Rightarrow>
         (case py_index distances m of Inl e \<Rightarrow> Inl e
          | Inr closest_drone \<Rightarrow> dict_append assignments closest_drone sensor))"

definition k_means_clustering_assignment :: "node list \<Rightarrow> node list \<Rightarrow> error + assignment" where
  "k_means_clustering_assignment drone_nodes sensor_nodes =
     (let centroids = map xy drone_nodes;
          assignments = replicate (length centroids) []
      in fold_err (kmeans_step centroids) sensor_nodes assignments)"

subsection \<open>\<^verbatim>\<open>genetic_algorithm_optimization\<close>\<close>

text \<open>
  The random draws of the search come from one supply \<open>rng\<close>, read at a position that
  every call advances: the state of a loop carries the position next to its data.
  \<^verbatim>\<open>random.random()\<close> is a multiple of \<open>2\<^sup>-\<^sup>5\<^sup>3\<close> in \<open>[0, 1)\<close>; \<^verbatim>\<open>random.choice\<close> raises
  \<^verbatim>\<open>IndexError\<close> on an empty sequence.
\<close>

definition random_random :: "nat \<Rightarrow> real" where
  "random_random r = real (r mod 2 ^ 53) / 2 ^ 53"

definition random_choice :: "nat \<Rightarrow> 'a list \<Rightarrow> error + 'a" where
  "random_choice r xs = (if xs = [] then Inl IndexError else Inr (xs ! (r mod length xs)))"

definition population_size :: nat where
  "population_size = 50"

definition generations :: nat where
  "generations = 100"

definition mutation_rate :: real where
  "mutation_rate = 0.1"

text \<open>The initial population: every sensor goes to the drone \<^verbatim>\<open>random.randint(0, n - 1)\<close>.\<close>

definition init_step :: "(nat \<Rightarrow> nat) \<Rightarrow> nat \<Rightarrow> node \<Rightarrow> assignment \<times> nat \<Rightarrow> error + assignment \<times> nat" where
  "init_step rng n sensor = (\<lambda>(assignment, k).
     case randint (rng k) 0 (int n - 1) of Inl e \<Rightarrow> Inl e
     | Inr drone_idx \<Rightarrow>
        (case dict_append assignment (nat drone_idx) sensor of Inl e \<Rightarrow> Inl e
         | Inr a \<Rightarrow> Inr (a, k + 1)))"

definition random_assignment :: "(nat \<Rightarrow> nat) \<Rightarrow> nat \<Rightarrow> node list \<Rightarrow> nat \<Rightarrow> error + assignment \<times> nat" where
  "random_assignment rng n sensor_nodes k =
     fold_err (init_step rng n) sensor_nodes (replicate n [], k)"

definition init_population ::
  "nat \<Rightarrow> (nat \<Rightarrow> nat) \<Rightarrow> nat \<Rightarrow> node list \<Rightarrow> nat \<Rightarrow> error + assignment list \<times> nat" where
  "init_population ps rng n sensor_nodes k =
     fold_err (\<lambda>_ (population, k).
         case random_assignment rng n sensor_nodes k of Inl e \<Rightarrow> Inl e
         | Inr (a, k') \<Rightarrow> Inr (population @ [a], k'))
       [0..<ps] ([], k)"

text \<open>\<^verbatim>\<open>np.var\<close>: the mean of the squared deviations from the mean.\<close>

definition np_var :: "real list \<Rightarrow> real" where
  "np_var xs =
     (let m = sum_list xs / real (length xs)
      in sum_list (map (\<lambda>x. (x - m)\<^sup>2) xs) / real (length xs))"

text \<open>The nested function \<^verbatim>\<open>fitness\<close>. The keys of an assignment are indices of
  \<open>drone_nodes\<close>, and the divisor is at least 1, so it does not raise.\<close>

definition fitness :: "node list \<Rightarrow> assignment \<Rightarrow> real" where
  "fitness drone_nodes assignment =
     (let distances = map (\<lambda>(drone_idx, sensors).
              sum_list (map (\<lambda>sensor. ts_calculate_distance (xy (drone_nodes ! drone_idx)) (xy sensor))
                 sensors))
            (enumerate 0 assignment);
          total_distance = sum_list distances;
          load_variance = (if distances \<noteq> [] then np_var distances else 0)
      in 1 / (total_distance + load_variance + 1))"

text \<open>\<^verbatim>\<open>sort(key=..., reverse=True)\<close>: descending by fitness, and stable.\<close>

definition rank :: "node list \<Rightarrow> assignment list \<Rightarrow> assignment list" where
  "rank drone_nodes population = sort_key (\<lambda>a. - fitness drone_nodes a) population"

text \<open>The inner loop of the crossover: the first key of the parent whose list holds the
  sensor.\<close>

fun find_owner :: "assignment \<Rightarrow> node \<Rightarrow> nat option" where
  "find_owner [] s = None"
| "find_owner (sensors # rest) s =
     (if s \<in> set sensors then Some 0 else map_option Suc (find_owner rest s))"

definition crossover_step ::
  "(nat \<Rightarrow> nat) \<Rightarrow> assignment \<Rightarrow> assignment \<Rightarrow> node \<Rightarrow> assignment \<times> nat \<Rightarrow> error + assignment \<times> nat" where
  "crossover_step rng parent1 parent2 sensor = (\<lambda>(child, k).
     let parent = (if random_random (rng k) < 0.5 then parent1 else parent2) in
     case find_owner parent sensor of None \<Rightarrow> Inr (child, k + 1)
     | Some drone_idx \<Rightarrow>
        (case dict_append child drone_idx sensor of Inl e \<Rightarrow> Inl e
         | Inr c \<Rightarrow> Inr (c, k + 1)))"

definition crossover ::
  "(nat \<Rightarrow> nat) \<Rightarrow> nat \<Rightarrow> node list \<Rightarrow> assignment \<Rightarrow> assignment \<Rightarrow> nat \<Rightarrow> error + assignment \<times> nat" where
  "crossover rng n sensor_nodes parent1 parent2 k =
     fold_err (crossover_step rng parent1 parent2) sensor_nodes (replicate n [], k)"

text \<open>The mutation of a child. \<^verbatim>\<open>sensors.remove(x)\<close> drops the first occurrence.\<close>

definition mutation ::
  "real \<Rightarrow> (nat \<Rightarrow> nat) \<Rightarrow> nat \<Rightarrow> node list \<Rightarrow> assignment \<times> nat \<Rightarrow> error + assignment \<times> nat" where
  "mutation mr rng n sensor_nodes = (\<lambda>(child, k).
     if random_random (rng k) < mr then
       (case random_choice (rng (k + 1)) sensor_nodes of Inl e \<Rightarrow> Inl e
        | Inr sensor_to_move \<Rightarrow>
           (let child1 = (case find_owner child sensor_to_move of None \<Rightarrow> child
                  | Some drone_idx \<Rightarrow> child[drone_idx := remove1 sensor_to_move (child ! drone_idx)])
            in case randint (rng (k + 2)) 0 (int n - 1) of Inl e \<Rightarrow> Inl e
               | Inr new_drone \<Rightarrow>
                  (case dict_append child1 (nat new_drone) sensor_to_move of Inl e \<Rightarrow> Inl e
                   | Inr c \<Rightarrow> Inr (c, k + 3))))
     else Inr (child, k + 1))"

text \<open>One turn of the \<^verbatim>\<open>while\<close> loop: two parents, crossover, mutation.\<close>

definition make_child ::
  "real \<Rightarrow> (nat \<Rightarrow> nat) \<Rightarrow> nat \<Rightarrow> node list \<Rightarrow> assignment list \<Rightarrow> nat \<Rightarrow> error + assignment \<times> nat" where
  "make_child mr rng n sensor_nodes survivors k =
     (case random_choice (rng k) survivors of Inl e \<Rightarrow> Inl e
      | Inr parent1 \<Rightarrow>
     (case random_choice (rng (k + 1)) survivors of Inl e \<Rightarrow> Inl e
      | Inr parent2 \<Rightarrow>
     (case crossover rng n sensor_nodes parent1 parent2 (k + 2) of Inl e \<Rightarrow> Inl e
      | Inr ck \<Rightarrow> mutation mr rng n sensor_nodes ck)))"

text \<open>\<^verbatim>\<open>while len(new_population) < population_size\<close>.\<close>

function refill ::
  "nat \<Rightarrow> real \<Rightarrow> (nat \<Rightarrow> nat) \<Rightarrow> nat \<Rightarrow> node list \<Rightarrow> assignment list \<Rightarrow> assignment list \<times> nat
     \<Rightarrow> error + assignment list \<times> nat" where
  "refill ps mr rng n sensor_nodes survivors (new_population, k) =
     (if length new_population < ps then
        (case make_child mr rng n sensor_nodes survivors k of Inl e \<Rightarrow> Inl e
         | Inr (child, k') \<Rightarrow>
             refill ps mr rng n sensor_nodes survivors (new_population @ [child], k'))
      else Inr (new_population, k))"
  by pat_completeness auto
termination
  by (relation "measure (\<lambda>(ps, mr, rng, n, sensor_nodes, survivors, new_population, k).
        ps - length new_population)") auto

text \<open>The body of the loop over the generations.\<close>

definition generation_step ::
  "nat \<Rightarrow> real \<Rightarrow> (nat \<Rightarrow> nat) \<Rightarrow> node list \<Rightarrow> node list \<Rightarrow> assignment list \<times> nat
     \<Rightarrow> error + assignment list \<times> nat" where
  "generation_step ps mr rng drone_nodes sensor_nodes = (\<lambda>(population, k).
     let survivors = take (ps div 2) (rank drone_nodes population)
     in refill ps mr rng (length drone_nodes) sensor_nodes survivors (survivors, k))"

text \<open>The population after \<open>g\<close> generations.\<close>

definition evolve ::
  "nat \<Rightarrow> real \<Rightarrow> (nat \<Rightarrow> nat) \<Rightarrow> node list \<Rightarrow> node list \<Rightarrow> nat \<Rightarrow> error + assignment list \<times> nat" where
  "evolve ps mr rng drone_nodes sensor_nodes g =
     (case init_population ps rng (length drone_nodes) sensor_nodes 0 of Inl e \<Rightarrow> Inl e
      | Inr pk \<Rightarrow>
          fold_err (\<lambda>generation. generation_step ps mr rng drone_nodes sensor_nodes)
            [0..<g] pk)"

text \<open>\<^verbatim>\<open>return final_fitness[0][0]\<close>.\<close>

definition best_of :: "node list \<Rightarrow> assignment list \<Rightarrow> error + assignment" where
  "best_of drone_nodes population =
     (case rank drone_nodes population of [] \<Rightarrow> Inl IndexError | a # _ \<Rightarrow> Inr a)"

text \<open>The search with its three constants as parameters, and the method itself.\<close>

definition genetic_search ::
  "nat \<Rightarrow> nat \<Rightarrow> real \<Rightarrow> (nat \<Rightarrow> nat) \<Rightarrow> node list \<Rightarrow> node list \<Rightarrow> error + assignment" where
  "genetic_search ps gens mr rng drone_nodes sensor_nodes =
     (case evolve ps mr rng drone_nodes sensor_nodes gens of Inl e \<Rightarrow> Inl e
      | Inr (population, k) \<Rightarrow> best_of drone_nodes population)"

definition genetic_algorithm_optimization :: "(nat \<Rightarrow> nat) \<Rightarrow> node list \<Rightarrow> node list \<Rightarrow> error + assignment" where
  "genetic_algorithm_optimization rng drone_nodes sensor_nodes =
     genetic_search population_size generations mutation_rate rng drone_nodes sensor_nodes"

subsection \<open>\<^verbatim>\<open>generate_schedule\<close>\<close>

text \<open>One dict of the schedule. Its keys \<^verbatim>\<open>drone_id\<close>, \<^verbatim>\<open>sensor_id\<close> and
  \<^verbatim>\<open>distance\<close> carry the prefix \<open>entry\<close>, the names being in use for variables.\<close>

record entry =
  entry_drone_id :: nat
  entry_sensor_id :: string
  entry_distance :: real
  collection_time :: real
  energy_cost :: real

text \<open>The dict that the inner loop appends for a sensor and the position of its drone.\<close>

definition entry_of :: "node \<Rightarrow> nat \<Rightarrow> node \<Rightarrow> entry" where
  "entry_of drone drone_idx sensor =
     (let dist = ts_calculate_distance (xy drone) (xy sensor)
      in \<lparr>entry_drone_id = drone_idx, entry_sensor_id = node_id sensor,
          entry_distance = dist, collection_time = dist / 10 + 2,
          energy_cost = dist * 0.1 + 5\<rparr>)"

text \<open>The body of the inner loop; \<^verbatim>\<open>drone_positions[drone_idx]\<close> raises out of range.\<close>

definition schedule_sensor :: "node list \<Rightarrow> nat \<Rightarrow> node \<Rightarrow> entry list \<Rightarrow> error + entry list" where
  "schedule_sensor drone_nodes drone_idx sensor schedule =
     (if drone_idx < length drone_nodes
      then Inr (schedule @ [entry_of (drone_nodes ! drone_idx) drone_idx sensor])
      else Inl IndexError)"

definition schedule_of :: "node list \<Rightarrow> assignment \<Rightarrow> error + entry list" where
  "schedule_of drone_nodes assignments =
     fold_err (\<lambda>(drone_idx, sensors). fold_err (schedule_sensor drone_nodes drone_idx) sensors)
       (enumerate 0 assignments) []"

definition generate_schedule ::
  "(nat \<Rightarrow> nat) \<Rightarrow> node list \<Rightarrow> node list \<Rightarrow> string \<Rightarrow> error + entry list \<times> assignment" where
  "generate_schedule rng drone_nodes sensor_nodes algorithm =
     (case (if algorithm = ''genetic''
            then genetic_algorithm_optimization rng drone_nodes sensor_nodes
            else k_means_clustering_assignment drone_nodes sensor_nodes) of
        Inl e \<Rightarrow> Inl e
      | Inr assignments \<Rightarrow>
          (case schedule_of drone_nodes assignments of Inl e \<Rightarrow> Inl e
           | Inr schedule \<Rightarrow> Inr (schedule, assignments)))"

subsection \<open>The specification's words, for comparison\<close>

text \<open>Drone \<open>i\<close> is the nearest to a sensor: none is nearer, and every drone of lower index
  is strictly farther.\<close>

definition is_nearest :: "node list \<Rightarrow> nat \<Rightarrow> node \<Rightarrow> bool" where
  "is_nearest drone_nodes i s \<longleftrightarrow>
     (\<forall>j \<in> {0..<length drone_nodes}.
        ts_calculate_distance (xy (drone_nodes ! i)) (xy s)
          \<le> ts_calculate_distance (xy (drone_nodes ! j)) (xy s)) \<and>
     (\<forall>j \<in> {0..<i}.
        ts_calculate_distance (xy (drone_nodes ! i)) (xy s)
          < ts_calculate_distance (xy (drone_nodes ! j)) (xy s))"

text \<open>The nearest-centroid partition: drone \<open>i\<close> gets, in their order, the sensors it is
  the nearest to.\<close>

definition nearest_centroid_partition :: "node list \<Rightarrow> node list \<Rightarrow> assignment" where
  "nearest_centroid_partition drone_nodes sensor_nodes =
     map (\<lambda>i. filter (is_nearest drone_nodes i) sensor_nodes) [0..<length drone_nodes]"

text \<open>An assignment over \<open>n\<close> drones covers the sensors exactly: its lists, taken together,
  hold each sensor as many times as the sensor list does.\<close>

definition exact_partition :: "nat \<Rightarrow> node list \<Rightarrow> assignment \<Rightarrow> bool" where
  "exact_partition n sensor_nodes a \<longleftrightarrow> length a = n \<and> mset (concat a) = mset sensor_nodes"

section \<open>Properties of the online greedy scheduler\<close>

lemma fold_err_append:
  "fold_err f (xs @ ys) s = (case fold_err f xs s of Inl e \<Rightarrow> Inl e | Inr s' \<Rightarrow> fold_err f ys s')"
  by (induction xs arbitrary: s) (auto split: sum.splits)

lemma greedy_step_cases:
  assumes "greedy_step bat sp (d, p) (best, mc) = Inr (best', mc')"
  obtains b where "bat d = Some b" "20 < b" "below (cost p sp b) mc"
      "best' = Some d" "mc' = Some (cost p sp b)"
  | b where "bat d = Some b" "\<not> (20 < b \<and> below (cost p sp b) mc)"
      "best' = best" "mc' = mc"
proof (cases "bat d")
  case None
  with assms show ?thesis by (simp add: greedy_step_def)
next
  case (Some b)
  show ?thesis
  proof (cases "20 < b \<and> below (cost p sp b) mc")
    case True
    with assms Some have "best' = Some d" "mc' = Some (cost p sp b)"
      by (simp_all add: greedy_step_def Let_def)
    with True Some that(1) show ?thesis by blast
  next
    case False
    with assms Some have "best' = best" "mc' = mc"
      by (simp_all add: greedy_step_def Let_def)
    with False Some that(2) show ?thesis by blast
  qed
qed

lemma greedy_step_total:
  "bat d = Some b \<Longrightarrow> \<exists>r. greedy_step bat sp (d, p) acc = Inr r"
  by (cases acc) (auto simp: greedy_step_def Let_def)

lemma greedy_scan_total:
  "\<forall>d \<in> fst ` set xs. bat d \<noteq> None \<Longrightarrow> \<exists>r. fold_err (greedy_step bat sp) xs acc = Inr r"
proof (induction xs arbitrary: acc)
  case Nil
  then show ?case by simp
next
  case (Cons x xs)
  obtain d p where x: "x = (d, p)" by (cases x)
  from Cons.prems x obtain b where "bat d = Some b" by auto
  then obtain r where "greedy_step bat sp (d, p) acc = Inr r"
    using greedy_step_total by blast
  moreover from Cons.prems have "\<forall>d \<in> fst ` set xs. bat d \<noteq> None" by auto
  ultimately show ?case using Cons.IH [of r] x by simp
qed

text \<open>What the scan returns: either nothing in the list beat the incoming minimum, or the
  list splits around the winner: strictly worse eligible drones before, no better after.\<close>

lemma greedy_scan_result:
  assumes "fold_err (greedy_step bat sp) xs (best, mc) = Inr (best', mc')"
  shows "(best' = best \<and> mc' = mc \<and>
          (\<forall>(d, p) \<in> set xs. \<forall>b. bat d = Some b \<and> 20 < b \<longrightarrow>
              \<not> below (cost p sp b) mc))
       \<or> (\<exists>pre d p post b. xs = pre @ (d, p) # post \<and> bat d = Some b \<and> 20 < b \<and>
            best' = Some d \<and> mc' = Some (cost p sp b) \<and>
            below (cost p sp b) mc \<and>
            (\<forall>(d', p') \<in> set pre. \<forall>b'. bat d' = Some b' \<and> 20 < b' \<longrightarrow>
               cost p sp b < cost p' sp b') \<and>
            (\<forall>(d', p') \<in> set post. \<forall>b'. bat d' = Some b' \<and> 20 < b' \<longrightarrow>
               cost p sp b \<le> cost p' sp b'))"
  using assms
proof (induction xs arbitrary: best mc)
  case Nil
  then show ?case by simp
next
  case (Cons x xs)
  obtain d0 p0 where x: "x = (d0, p0)" by (cases x)
  let ?c = "\<lambda>p b. cost p sp b"
  from Cons.prems x obtain best1 mc1 where
    step: "greedy_step bat sp (d0, p0) (best, mc) = Inr (best1, mc1)"
    and rest: "fold_err (greedy_step bat sp) xs (best1, mc1) = Inr (best', mc')"
    by (auto split: sum.splits)
  note IH = Cons.IH [OF rest]
  from step show ?case
  proof (cases rule: greedy_step_cases)
    case (1 b0)
    from IH show ?thesis
    proof (elim disjE conjE exE)
      assume a: "best' = best1" "mc' = mc1"
        "\<forall>(d, p) \<in> set xs. \<forall>b. bat d = Some b \<and> 20 < b \<longrightarrow> \<not> below (?c p b) mc1"
      have "\<forall>(d', p') \<in> set xs. \<forall>b'. bat d' = Some b' \<and> 20 < b' \<longrightarrow> ?c p0 b0 \<le> ?c p' b'"
        using a(3) 1(5) by (auto simp: below_def)
      then have "x # xs = [] @ (d0, p0) # xs \<and> bat d0 = Some b0 \<and> 20 < b0 \<and>
            best' = Some d0 \<and> mc' = Some (?c p0 b0) \<and> below (?c p0 b0) mc \<and>
            (\<forall>(d', p') \<in> set []. \<forall>b'. bat d' = Some b' \<and> 20 < b' \<longrightarrow> ?c p0 b0 < ?c p' b') \<and>
            (\<forall>(d', p') \<in> set xs. \<forall>b'. bat d' = Some b' \<and> 20 < b' \<longrightarrow> ?c p0 b0 \<le> ?c p' b')"
        using 1 a x by simp
      then show ?thesis by blast
    next
      fix pre d p post b
      assume a: "xs = pre @ (d, p) # post" "bat d = Some b" "20 < b" "best' = Some d"
        "mc' = Some (?c p b)" "below (?c p b) mc1"
        "\<forall>(d', p') \<in> set pre. \<forall>b'. bat d' = Some b' \<and> 20 < b' \<longrightarrow> ?c p b < ?c p' b'"
        "\<forall>(d', p') \<in> set post. \<forall>b'. bat d' = Some b' \<and> 20 < b' \<longrightarrow> ?c p b \<le> ?c p' b'"
      have lt: "?c p b < ?c p0 b0" using a(6) 1(5) by (simp add: below_def)
      have bel: "below (?c p b) mc" using lt 1(3) by (auto simp: below_def split: option.splits)
      have pre: "\<forall>(d', p') \<in> set ((d0, p0) # pre). \<forall>b'. bat d' = Some b' \<and> 20 < b' \<longrightarrow> ?c p b < ?c p' b'"
        using a(7) lt 1(1) by auto
      have "x # xs = ((d0, p0) # pre) @ (d, p) # post" using a(1) x by simp
      with a(2-5) bel pre a(8) show ?thesis by blast
    qed
  next
    case (2 b0)
    from IH show ?thesis
    proof (elim disjE conjE exE)
      assume a: "best' = best1" "mc' = mc1"
        "\<forall>(d, p) \<in> set xs. \<forall>b. bat d = Some b \<and> 20 < b \<longrightarrow> \<not> below (?c p b) mc1"
      then show ?thesis using 2 x by auto
    next
      fix pre d p post b
      assume a: "xs = pre @ (d, p) # post" "bat d = Some b" "20 < b" "best' = Some d"
        "mc' = Some (?c p b)" "below (?c p b) mc1"
        "\<forall>(d', p') \<in> set pre. \<forall>b'. bat d' = Some b' \<and> 20 < b' \<longrightarrow> ?c p b < ?c p' b'"
        "\<forall>(d', p') \<in> set post. \<forall>b'. bat d' = Some b' \<and> 20 < b' \<longrightarrow> ?c p b \<le> ?c p' b'"
      have bel: "below (?c p b) mc" using a(6) 2 by simp
      have "20 < b0 \<Longrightarrow> ?c p b < ?c p0 b0"
        using 2(2) bel by (auto simp: below_def split: option.splits)
      then have pre: "\<forall>(d', p') \<in> set ((d0, p0) # pre). \<forall>b'. bat d' = Some b' \<and> 20 < b' \<longrightarrow> ?c p b < ?c p' b'"
        using a(7) 2(1) by auto
      have "x # xs = ((d0, p0) # pre) @ (d, p) # post" using a(1) x by simp
      with a(2-5) bel pre a(8) show ?thesis by blast
    qed
  qed
qed


subsection \<open>Unfolding one call\<close>

lemma schedule_task_SomeD:
  assumes "schedule_task s sid t = Inr (Some d, s')"
  obtains sp p b mc where "sensor_positions s sid = Some sp"
    "fold_err (greedy_step (drone_battery s) sp) (drone_positions s) (None, None) = Inr (Some d, mc)"
    "d \<noteq> 0" "map_of (drone_positions s) d = Some p" "drone_battery s d = Some b"
    "s' = assign s d p b sid sp t"
proof (cases "sensor_positions s sid")
  case None
  with assms show ?thesis by (simp add: schedule_task_def)
next
  case (Some sp)
  show ?thesis
  proof (cases "fold_err (greedy_step (drone_battery s) sp) (drone_positions s) (None, None)")
    case (Inl e)
    with assms Some show ?thesis by (simp add: schedule_task_def)
  next
    case (Inr acc)
    obtain best mc where acc: "acc = (best, mc)" by (cases acc)
    show ?thesis
    proof (cases best)
      case None
      with assms Some Inr acc show ?thesis by (simp add: schedule_task_def truthy_def)
    next
      case best: (Some d0)
      have eq: "schedule_task s sid t =
         (if d0 \<noteq> 0 then
           (case map_of (drone_positions s) d0 of None \<Rightarrow> Inl KeyError
            | Some p \<Rightarrow> (case drone_battery s d0 of None \<Rightarrow> Inl KeyError
               | Some b \<Rightarrow> Inr (Some d0, assign s d0 p b sid sp t)))
          else Inr (None, s))"
        using Some Inr acc best by (simp add: schedule_task_def truthy_def)
      from assms eq have nz: "d0 \<noteq> 0" by (auto split: if_splits)
      from assms eq nz obtain p where p: "map_of (drone_positions s) d0 = Some p"
        by (cases "map_of (drone_positions s) d0") simp_all
      from assms eq nz p obtain b where b: "drone_battery s d0 = Some b"
        by (cases "drone_battery s d0") simp_all
      from assms eq nz p b have "d = d0" "s' = assign s d0 p b sid sp t" by auto
      with Some Inr acc best nz p b that show ?thesis by blast
    qed
  qed
qed

lemma schedule_task_NoneD:
  assumes "schedule_task s sid t = Inr (None, s')"
  shows "s' = s"
proof (cases "sensor_positions s sid")
  case None
  with assms show ?thesis by (simp add: schedule_task_def)
next
  case (Some sp)
  show ?thesis
  proof (cases "fold_err (greedy_step (drone_battery s) sp) (drone_positions s) (None, None)")
    case (Inl e)
    with assms Some show ?thesis by (simp add: schedule_task_def)
  next
    case (Inr acc)
    obtain best mc where acc: "acc = (best, mc)" by (cases acc)
    show ?thesis
    proof (cases "truthy best")
      case False
      with assms Some Inr acc show ?thesis by (simp add: schedule_task_def)
    next
      case True
      then obtain d0 where "best = Some d0" by (cases best) (simp_all add: truthy_def)
      with assms Some Inr acc True show ?thesis
        by (simp add: schedule_task_def split: option.splits)
    qed
  qed
qed

lemma greedy_scan_winner:
  assumes "fold_err (greedy_step bat sp) xs (None, None) = Inr (Some d, mc)"
  obtains pre p post b where "xs = pre @ (d, p) # post" "bat d = Some b" "20 < b"
    "mc = Some (cost p sp b)"
    "\<forall>(d', p') \<in> set pre. \<forall>b'. bat d' = Some b' \<and> 20 < b' \<longrightarrow> cost p sp b < cost p' sp b'"
    "\<forall>(d', p') \<in> set post. \<forall>b'. bat d' = Some b' \<and> 20 < b' \<longrightarrow> cost p sp b \<le> cost p' sp b'"
proof -
  from greedy_scan_result [OF assms] have
    "\<exists>pre d0 p post b. xs = pre @ (d0, p) # post \<and> bat d0 = Some b \<and> 20 < b \<and>
        Some d = Some d0 \<and> mc = Some (cost p sp b) \<and> below (cost p sp b) None \<and>
        (\<forall>(d', p') \<in> set pre. \<forall>b'. bat d' = Some b' \<and> 20 < b' \<longrightarrow> cost p sp b < cost p' sp b') \<and>
        (\<forall>(d', p') \<in> set post. \<forall>b'. bat d' = Some b' \<and> 20 < b' \<longrightarrow> cost p sp b \<le> cost p' sp b')"
    by (elim disjE) simp_all
  then obtain pre d0 p post b where "xs = pre @ (d0, p) # post" "bat d0 = Some b" "20 < b"
        "Some d = Some d0" "mc = Some (cost p sp b)"
        "\<forall>(d', p') \<in> set pre. \<forall>b'. bat d' = Some b' \<and> 20 < b' \<longrightarrow> cost p sp b < cost p' sp b'"
        "\<forall>(d', p') \<in> set post. \<forall>b'. bat d' = Some b' \<and> 20 < b' \<longrightarrow> cost p sp b \<le> cost p' sp b'"
    by blast
  with that show ?thesis by simp
qed

lemma greedy_scan_none:
  assumes "fold_err (greedy_step bat sp) xs (None, None) = Inr (None, mc)"
  shows "\<forall>(d, p) \<in> set xs. \<forall>b. bat d = Some b \<longrightarrow> b \<le> 20"
proof -
  from greedy_scan_result [OF assms] have
    "\<forall>(d, p) \<in> set xs. \<forall>b. bat d = Some b \<and> 20 < b \<longrightarrow> \<not> below (cost p sp b) None"
    by (elim disjE) simp_all
  then show ?thesis by (fastforce simp: below_def)
qed

lemma schedule_task_battery:
  assumes "schedule_task s sid t = Inr (r, s')" and "drone_battery s' d = Some b'"
  shows "\<exists>b. drone_battery s d = Some b \<and> (b' = b \<or> b' = b - min 5 b)"
proof (cases r)
  case None
  with assms show ?thesis by (auto dest: schedule_task_NoneD)
next
  case (Some d0)
  with assms(1) obtain sp p b where "drone_battery s d0 = Some b" "s' = assign s d0 p b sid sp t"
    by (auto elim: schedule_task_SomeD)
  with assms(2) show ?thesis by (cases "d = d0") (auto simp: assign_def)
qed

subsection \<open>The constructor\<close>

lemma place_drone_Inr:
  "\<exists>x y. place_drone rng g i (dp, bat) = Inr (AList.update (50 + int i) (x, y) dp, bat(50 + int i \<mapsto> 100))
     \<and> 0 \<le> x \<and> x \<le> int g * 10 \<and> 0 \<le> y \<and> y \<le> int g * 10"
proof -
  let ?x = "int (rng (2 * i)) mod (int g * 10 + 1)"
  let ?y = "int (rng (2 * i + 1)) mod (int g * 10 + 1)"
  have e: "place_drone rng g i (dp, bat)
     = Inr (AList.update (50 + int i) (?x, ?y) dp, bat(50 + int i \<mapsto> 100))"
    by (simp add: place_drone_def randint_def Let_def)
  have "0 < int g * 10 + 1" by simp
  then have "0 \<le> ?x" "?x < int g * 10 + 1" "0 \<le> ?y" "?y < int g * 10 + 1"
    by (simp_all only: pos_mod_sign pos_mod_bound)
  with e show ?thesis by (intro exI [of _ ?x] exI [of _ ?y]) simp
qed

lemma place_drones_inv:
  assumes "fold_err (place_drone rng g) [0..<n] ([], Map.empty) = Inr (dp, bat)"
  shows "map fst dp = map (\<lambda>i. 50 + int i) [0..<n] \<and> dom bat = (\<lambda>i. 50 + int i) ` {0..<n}
     \<and> (\<forall>d \<in> dom bat. bat d = Some 100)
     \<and> (\<forall>(d, x, y) \<in> set dp. 0 \<le> x \<and> x \<le> int g * 10 \<and> 0 \<le> y \<and> y \<le> int g * 10)"
  using assms
proof (induction n arbitrary: dp bat)
  case 0
  then show ?case by auto
next
  case (Suc n)
  from Suc.prems obtain dp0 bat0 where
    pre: "fold_err (place_drone rng g) [0..<n] ([], Map.empty) = Inr (dp0, bat0)"
    and step: "place_drone rng g n (dp0, bat0) = Inr (dp, bat)"
    by (auto simp: fold_err_append split: sum.splits)
  note IH = Suc.IH [OF pre]
  obtain x y where xy: "place_drone rng g n (dp0, bat0)
       = Inr (AList.update (50 + int n) (x, y) dp0, bat0(50 + int n \<mapsto> 100))"
    "0 \<le> x" "x \<le> int g * 10" "0 \<le> y" "y \<le> int g * 10"
    using place_drone_Inr [of rng g n dp0 bat0] by blast
  with step have dp: "dp = AList.update (50 + int n) (x, y) dp0"
    and bat: "bat = bat0(50 + int n \<mapsto> 100)" by simp_all
  have fresh: "50 + int n \<notin> fst ` set dp0"
  proof -
    have "fst ` set dp0 = set (map fst dp0)" by simp
    also have "\<dots> = (\<lambda>i. 50 + int i) ` {0..<n}" using IH by simp
    finally show ?thesis by auto
  qed
  then have dp': "dp = dp0 @ [(50 + int n, (x, y))]"
    unfolding dp by (induction dp0) auto
  have 1: "map fst dp = map (\<lambda>i. 50 + int i) [0..<Suc n]" using IH dp' by simp
  have 2: "dom bat = (\<lambda>i. 50 + int i) ` {0..<Suc n}"
    using IH bat by (auto simp: atLeast0_lessThan_Suc)
  have 3: "\<forall>d \<in> dom bat. bat d = Some 100" using IH bat by auto
  have 4: "\<forall>(d, x, y) \<in> set dp. 0 \<le> x \<and> x \<le> int g * 10 \<and> 0 \<le> y \<and> y \<le> int g * 10"
    using IH dp' xy(2-5) by auto
  from 1 2 3 4 show ?case by blast
qed

lemma DroneTaskScheduler_InrD:
  assumes "DroneTaskScheduler rng nd ns = Inr s"
  obtains g where "grid_size ns = Inr g"
    "fold_err (place_drone rng g) [0..<nat nd] ([], Map.empty) = Inr (drone_positions s, drone_battery s)"
    "sensor_positions s = fst (place_sensors ns g)" "assigned_tasks s = Map.empty"
    "num_drones s = nd" "num_sensors s = ns" "task_queue s = []"
  using assms by (auto simp: DroneTaskScheduler_def split: sum.splits prod.splits)

lemma init_well_formed:
  assumes "DroneTaskScheduler rng nd ns = Inr s"
  shows "well_formed s \<and> (\<forall>d \<in> dom (drone_battery s). drone_battery s d = Some 100)"
proof -
  from assms obtain g where
    f: "fold_err (place_drone rng g) [0..<nat nd] ([], Map.empty) = Inr (drone_positions s, drone_battery s)"
    by (rule DroneTaskScheduler_InrD)
  note inv = place_drones_inv [OF f]
  have d: "distinct (map fst (drone_positions s))"
    using inv by (simp add: distinct_map inj_on_def)
  have "fst ` set (drone_positions s) = set (map fst (drone_positions s))" by simp
  also have "\<dots> = dom (drone_battery s)" using inv by simp
  finally have k: "fst ` set (drone_positions s) = dom (drone_battery s)" .
  have "0 \<notin> dom (drone_battery s)" using inv by auto
  with d k inv show ?thesis by (simp add: well_formed_def)
qed

lemma assign_fields [simp]:
  "drone_positions (assign s d p b sid sp t) = AList.update d sp (drone_positions s)"
  "drone_battery (assign s d p b sid sp t) = (drone_battery s)(d \<mapsto> b - min 5 b)"
  "assigned_tasks (assign s d p b sid sp t) = (assigned_tasks s)(d \<mapsto> get_tasks (assigned_tasks s) d @
      [\<lparr>task_sensor = sid, task_time = t, task_distance = calculate_distance p sp\<rparr>])"
  "sensor_positions (assign s d p b sid sp t) = sensor_positions s"
  "num_drones (assign s d p b sid sp t) = num_drones s"
  "num_sensors (assign s d p b sid sp t) = num_sensors s"
  "task_queue (assign s d p b sid sp t) = task_queue s"
  by (simp_all add: assign_def)

lemma assign_well_formed:
  assumes "well_formed s" "map_of (drone_positions s) d = Some p" "drone_battery s d = Some b"
  shows "well_formed (assign s d p b sid sp t)"
proof -
  from assms(2) have "d \<in> fst ` set (drone_positions s)"
    by (metis map_of_eq_None_iff option.distinct(1))
  then have keys: "map fst (AList.update d sp (drone_positions s)) = map fst (drone_positions s)"
    by (simp add: update_keys)
  have "fst ` set (AList.update d sp (drone_positions s))
      = set (map fst (AList.update d sp (drone_positions s)))" by simp
  also have "\<dots> = fst ` set (drone_positions s)" unfolding keys by simp
  finally have img: "fst ` set (AList.update d sp (drone_positions s)) = fst ` set (drone_positions s)" .
  from assms(3) have "d \<in> dom (drone_battery s)" by blast
  then have dom: "insert d (dom (drone_battery s)) = dom (drone_battery s)" by blast
  from assms(1) show ?thesis
    unfolding well_formed_def by (simp add: keys img dom)
qed

lemma recharge_well_formed:
  assumes "well_formed s"
  shows "well_formed (recharge_drone s d)"
proof (cases "drone_battery s d")
  case None
  with assms show ?thesis by (simp add: recharge_drone_def)
next
  case (Some b)
  then have "d \<in> dom (drone_battery s)" by blast
  then have "insert d (dom (drone_battery s)) = dom (drone_battery s)" by blast
  with assms Some show ?thesis by (simp add: recharge_drone_def well_formed_def)
qed

lemma reachable_well_formed: "reachable s \<Longrightarrow> well_formed s"
proof (induction rule: reachable.induct)
  case (init rng nd ns s)
  then show ?case using init_well_formed by blast
next
  case (sched s sid t r s')
  show ?case
  proof (cases r)
    case None
    with sched show ?thesis by (auto dest: schedule_task_NoneD)
  next
    case (Some d)
    with sched show ?thesis by (auto elim!: schedule_task_SomeD intro: assign_well_formed)
  qed
next
  case (rech s d)
  from rech.IH show ?case by (rule recharge_well_formed)
qed

lemma well_formed_total:
  assumes "well_formed s"
  shows "\<exists>r s'. schedule_task s sid t = Inr (r, s')"
proof (cases "sensor_positions s sid")
  case None
  then show ?thesis by (simp add: schedule_task_def)
next
  case (Some sp)
  from assms have "\<forall>d \<in> fst ` set (drone_positions s). drone_battery s d \<noteq> None"
    by (auto simp: well_formed_def)
  then obtain best mc where
    scan: "fold_err (greedy_step (drone_battery s) sp) (drone_positions s) (None, None) = Inr (best, mc)"
    using greedy_scan_total by (metis surj_pair)
  show ?thesis
  proof (cases best)
    case None
    with Some scan show ?thesis by (simp add: schedule_task_def truthy_def)
  next
    case (Some d)
    with scan obtain pre p post b where
      w: "drone_positions s = pre @ (d, p) # post" "drone_battery s d = Some b"
      by (auto elim: greedy_scan_winner)
    then have "map_of (drone_positions s) d \<noteq> None"
      by (simp add: map_of_eq_None_iff)
    with w Some scan \<open>sensor_positions s sid = Some sp\<close> show ?thesis
      by (auto simp: schedule_task_def split: option.splits)
  qed
qed

text \<open>
  Claim C1. A successful \<^verbatim>\<open>schedule_task(sensor_id, t)\<close> was called with a known sensor
  and returns a drone whose battery exceeded 20 when it was selected. Its entire effect on
  the registry is: the drone's position becomes the sensor's position, one task record is
  appended to the drone's history, with the Euclidean distance from the drone's position
  before the call to the sensor, and the drone's battery goes down by \<open>min 5 battery\<close>.
\<close>

theorem schedule_task_success:
  assumes "schedule_task s sensor_id t = Inr (Some d, s')"
  shows "\<exists>sensor_pos p b.
      sensor_positions s sensor_id = Some sensor_pos \<and>
      map_of (drone_positions s) d = Some p \<and> drone_battery s d = Some b \<and> 20 < b \<and>
      s' = s\<lparr>assigned_tasks := (assigned_tasks s)(d \<mapsto> get_tasks (assigned_tasks s) d @
                 [\<lparr>task_sensor = sensor_id, task_time = t, task_distance = calculate_distance p sensor_pos\<rparr>]),
             drone_positions := AList.update d sensor_pos (drone_positions s),
             drone_battery := (drone_battery s)(d \<mapsto> b - min 5 b)\<rparr> \<and>
      map_of (drone_positions s') d = Some sensor_pos \<and>
      get_tasks (assigned_tasks s') d = get_tasks (assigned_tasks s) d @
         [\<lparr>task_sensor = sensor_id, task_time = t, task_distance = calculate_distance p sensor_pos\<rparr>] \<and>
      drone_battery s' d = Some (b - min 5 b)"
proof -
  from assms obtain sp p b mc where
    sp: "sensor_positions s sensor_id = Some sp"
    and scan: "fold_err (greedy_step (drone_battery s) sp) (drone_positions s) (None, None) = Inr (Some d, mc)"
    and p: "map_of (drone_positions s) d = Some p" and b: "drone_battery s d = Some b"
    and s': "s' = assign s d p b sensor_id sp t"
    by (rule schedule_task_SomeD)
  from scan b have "20 < b" by (auto elim: greedy_scan_winner)
  moreover have "map_of (drone_positions s') d = Some sp"
    unfolding s' by (simp add: update_conv')
  moreover have "get_tasks (assigned_tasks s') d = get_tasks (assigned_tasks s) d @
         [\<lparr>task_sensor = sensor_id, task_time = t, task_distance = calculate_distance p sp\<rparr>]"
    unfolding s' by (simp add: get_tasks_def)
  moreover have "drone_battery s' d = Some (b - min 5 b)" unfolding s' by simp
  moreover have "s' = s\<lparr>assigned_tasks := (assigned_tasks s)(d \<mapsto> get_tasks (assigned_tasks s) d @
                 [\<lparr>task_sensor = sensor_id, task_time = t, task_distance = calculate_distance p sp\<rparr>]),
             drone_positions := AList.update d sp (drone_positions s),
             drone_battery := (drone_battery s)(d \<mapsto> b - min 5 b)\<rparr>"
    unfolding s' assign_def ..
  ultimately show ?thesis using sp p b by blast
qed

lemma two_drones_run:
  "schedule_task two_drones 100 7 = Inr (Some 50, assign two_drones 50 (0, 0) 100 100 (5, 0) 7)"
  by (simp add: schedule_task_def two_drones_def greedy_step_def cost_def calculate_distance_def
      below_def truthy_def)

theorem schedule_task_success_witness:
  "\<exists>s'. schedule_task two_drones 100 7 = Inr (Some 50, s') \<and>
     map_of (drone_positions s') 50 = Some (5, 0) \<and>
     get_tasks (assigned_tasks s') 50 = [\<lparr>task_sensor = 100, task_time = 7, task_distance = 5\<rparr>] \<and>
     drone_battery s' 50 = Some 95"
proof -
  let ?s' = "assign two_drones 50 (0, 0) 100 100 (5, 0) 7"
  have run: "schedule_task two_drones 100 7 = Inr (Some 50, ?s')" by (rule two_drones_run)
  from schedule_task_success [OF run] obtain sensor_pos p b where
    "sensor_positions two_drones 100 = Some sensor_pos"
    "map_of (drone_positions two_drones) 50 = Some p" "drone_battery two_drones 50 = Some b"
    "map_of (drone_positions ?s') 50 = Some sensor_pos"
    "get_tasks (assigned_tasks ?s') 50 = get_tasks (assigned_tasks two_drones) 50 @
         [\<lparr>task_sensor = 100, task_time = 7, task_distance = calculate_distance p sensor_pos\<rparr>]"
    "drone_battery ?s' 50 = Some (b - min 5 b)"
    by blast
  moreover from this(1-3) have "sensor_pos = (5, 0)" "p = (0, 0)" "b = 100"
    by (simp_all add: two_drones_def)
  ultimately have "map_of (drone_positions ?s') 50 = Some (5, 0)"
    "get_tasks (assigned_tasks ?s') 50 = [\<lparr>task_sensor = 100, task_time = 7, task_distance = 5\<rparr>]"
    "drone_battery ?s' 50 = Some 95"
    by (simp_all add: two_drones_def get_tasks_def calculate_distance_def)
  with run show ?thesis by blast
qed


text \<open>
  Claim C10. \<^verbatim>\<open>schedule_task\<close> changes nothing but the selected drone: the sensor
  positions, the set and order of the drones, and the position, battery and task history
  of every drone that is not returned stay as they were. A call that returns no assignment
  leaves the whole registry unchanged, and an unknown sensor or a fleet with no battery
  above 20 gives no assignment.
\<close>

theorem schedule_task_frame:
  assumes "schedule_task s sensor_id t = Inr (r, s')"
  shows "sensor_positions s' = sensor_positions s \<and>
     map fst (drone_positions s') = map fst (drone_positions s) \<and>
     num_drones s' = num_drones s \<and> num_sensors s' = num_sensors s \<and> task_queue s' = task_queue s \<and>
     (\<forall>d'. r \<noteq> Some d' \<longrightarrow>
        map_of (drone_positions s') d' = map_of (drone_positions s) d' \<and>
        drone_battery s' d' = drone_battery s d' \<and>
        assigned_tasks s' d' = assigned_tasks s d') \<and>
     (r = None \<longrightarrow> s' = s) \<and>
     (sensor_positions s sensor_id = None \<longrightarrow> r = None) \<and>
     ((\<forall>d b. drone_battery s d = Some b \<longrightarrow> b \<le> 20) \<longrightarrow> r = None)"
proof (cases r)
  case None
  with assms have "s' = s" by (auto dest: schedule_task_NoneD)
  with None show ?thesis by simp
next
  case (Some d)
  with assms obtain sp p b mc where
    sp: "sensor_positions s sensor_id = Some sp"
    and scan: "fold_err (greedy_step (drone_battery s) sp) (drone_positions s) (None, None) = Inr (Some d, mc)"
    and p: "map_of (drone_positions s) d = Some p" and b: "drone_battery s d = Some b"
    and s': "s' = assign s d p b sensor_id sp t"
    by (auto elim: schedule_task_SomeD)
  from p have "d \<in> fst ` set (drone_positions s)"
    by (metis map_of_eq_None_iff option.distinct(1))
  then have keys: "map fst (drone_positions s') = map fst (drone_positions s)"
    unfolding s' by (simp add: update_keys)
  have other: "\<forall>d'. r \<noteq> Some d' \<longrightarrow>
        map_of (drone_positions s') d' = map_of (drone_positions s) d' \<and>
        drone_battery s' d' = drone_battery s d' \<and>
        assigned_tasks s' d' = assigned_tasks s d'"
    unfolding s' using Some by (simp add: update_conv')
  from scan b have "20 < b" by (auto elim: greedy_scan_winner)
  with b have "\<not> (\<forall>d b. drone_battery s d = Some b \<longrightarrow> b \<le> 20)" by force
  with keys other sp Some show ?thesis unfolding s' by simp
qed

theorem schedule_task_frame_witness:
  "\<exists>s'. schedule_task two_drones 100 7 = Inr (Some 50, s') \<and>
     sensor_positions s' = sensor_positions two_drones \<and>
     map_of (drone_positions s') 51 = Some (100, 0) \<and>
     drone_battery s' 51 = Some 100 \<and> assigned_tasks s' 51 = None"
proof -
  let ?s' = "assign two_drones 50 (0, 0) 100 100 (5, 0) 7"
  have run: "schedule_task two_drones 100 7 = Inr (Some 50, ?s')" by (rule two_drones_run)
  from schedule_task_frame [OF run] have
    "sensor_positions ?s' = sensor_positions two_drones"
    "map_of (drone_positions ?s') 51 = map_of (drone_positions two_drones) 51"
    "drone_battery ?s' 51 = drone_battery two_drones 51"
    "assigned_tasks ?s' 51 = assigned_tasks two_drones 51"
    by simp_all
  moreover have "map_of (drone_positions two_drones) 51 = Some (100, 0)"
    "drone_battery two_drones 51 = Some 100" "assigned_tasks two_drones 51 = None"
    by (simp_all add: two_drones_def)
  ultimately show ?thesis using run by auto
qed

subsection \<open>Battery bounds\<close>

lemma init_battery:
  "DroneTaskScheduler rng nd ns = Inr s \<Longrightarrow> drone_battery s d = Some b \<Longrightarrow> b = 100"
  using init_well_formed [of rng nd ns s] by force

text \<open>
  Claim C3. In every state that the constructor and any sequence of \<^verbatim>\<open>schedule_task\<close>
  and \<^verbatim>\<open>recharge_drone\<close> calls can produce, every drone's battery lies in \<open>[0, 100]\<close>.
  In such a state every \<^verbatim>\<open>schedule_task\<close> call returns, a call that selects the drone
  takes \<open>min 5 battery\<close> from its battery, and \<^verbatim>\<open>recharge_drone\<close> sets it to
  \<open>min 100 (battery + 20)\<close>; the constructor sets every battery to 100.
\<close>

theorem battery_bounds:
  assumes "reachable s" and "drone_battery s d = Some b"
  shows "0 \<le> b \<and> b \<le> 100 \<and>
     drone_battery (recharge_drone s d) d = Some (min 100 (b + 20)) \<and>
     (\<forall>sensor_id t. \<exists>r s'. schedule_task s sensor_id t = Inr (r, s')) \<and>
     (\<forall>sensor_id t s'. schedule_task s sensor_id t = Inr (Some d, s') \<longrightarrow>
        drone_battery s' d = Some (b - min 5 b)) \<and>
     (\<forall>rng nd ns s0 d0 b0. DroneTaskScheduler rng nd ns = Inr s0 \<and> drone_battery s0 d0 = Some b0
        \<longrightarrow> b0 = 100)"
proof -
  from assms have bounds: "0 \<le> b \<and> b \<le> 100"
  proof (induction arbitrary: d b rule: reachable.induct)
    case (init rng nd ns s)
    then have "b = 100" by (rule init_battery)
    then show ?case by simp
  next
    case (sched s sensor_id t r s')
    from schedule_task_battery [OF sched.hyps(2) sched.prems] obtain b0 where
      b0: "drone_battery s d = Some b0" "b = b0 \<or> b = b0 - min 5 b0" by blast
    from sched.IH [OF b0(1)] b0(2) show ?case by auto
  next
    case (rech s drone_id)
    show ?case
    proof (cases "drone_battery s drone_id")
      case None
      with rech show ?thesis by (simp add: recharge_drone_def)
    next
      case (Some b0)
      show ?thesis
      proof (cases "d = drone_id")
        case True
        with Some rech.prems have "b = min 100 (b0 + 20)" by (simp add: recharge_drone_def)
        with rech.IH [OF Some] show ?thesis by auto
      next
        case False
        with Some rech.prems have "drone_battery s d = Some b" by (simp add: recharge_drone_def)
        then show ?thesis by (rule rech.IH)
      qed
    qed
  qed
  have recharge: "drone_battery (recharge_drone s d) d = Some (min 100 (b + 20))"
    using assms(2) by (simp add: recharge_drone_def)
  have returns: "\<forall>sensor_id t. \<exists>r s'. schedule_task s sensor_id t = Inr (r, s')"
    using reachable_well_formed [OF assms(1)] well_formed_total by blast
  have drain: "\<forall>sensor_id t s'. schedule_task s sensor_id t = Inr (Some d, s') \<longrightarrow>
        drone_battery s' d = Some (b - min 5 b)"
  proof (intro allI impI)
    fix sensor_id t s'
    assume "schedule_task s sensor_id t = Inr (Some d, s')"
    then obtain sp p b1 where "drone_battery s d = Some b1" "s' = assign s d p b1 sensor_id sp t"
      by (auto elim: schedule_task_SomeD)
    with assms(2) show "drone_battery s' d = Some (b - min 5 b)" by simp
  qed
  have start: "\<forall>rng nd ns s0 d0 b0. DroneTaskScheduler rng nd ns = Inr s0 \<and> drone_battery s0 d0 = Some b0
        \<longrightarrow> b0 = 100"
    using init_battery by blast
  from bounds recharge returns drain start show ?thesis by (intro conjI) simp_all
qed

lemma grid_size_1: "grid_size 1 = Inr 3"
  by (simp add: grid_size_def)

lemma init_one: "DroneTaskScheduler (\<lambda>i. 0) 1 1 = Inr one_drone"
  by (simp add: DroneTaskScheduler_def grid_size_1 place_drone_def randint_def
      place_sensors_def place_sensor_def one_drone_def upt_rec fun_eq_iff)


lemma one_drone_run:
  "schedule_task one_drone 100 3 = Inr (Some 50, assign one_drone 50 (0, 0) 100 100 (0, 0) 3)"
  by (simp add: schedule_task_def one_drone_def greedy_step_def cost_def calculate_distance_def
      below_def truthy_def)

theorem battery_bounds_witness:
  "reachable (assign one_drone 50 (0, 0) 100 100 (0, 0) 3) \<and>
   drone_battery (assign one_drone 50 (0, 0) 100 100 (0, 0) 3) 50 = Some 95 \<and>
   (0::real) \<le> 95 \<and> (95::real) \<le> 100 \<and>
   drone_battery (recharge_drone (assign one_drone 50 (0, 0) 100 100 (0, 0) 3) 50) 50 = Some 100"
proof -
  let ?s = "assign one_drone 50 (0, 0) 100 100 (0, 0) 3"
  have "reachable one_drone" using init_one by (rule reachable.init)
  then have r: "reachable ?s" using one_drone_run by (rule reachable.sched)
  have b: "drone_battery ?s 50 = Some 95" by simp
  from battery_bounds [OF r b] have "(0::real) \<le> 95 \<and> (95::real) \<le> 100"
    "drone_battery (recharge_drone ?s 50) 50 = Some (min 100 (95 + 20))" by blast+
  with r b show ?thesis by simp
qed

subsection \<open>Selection\<close>

text \<open>
  Claim C2. In every registry state, \<^verbatim>\<open>schedule_task\<close> never returns a drone whose
  battery was at or below 20; when every battery is at or below 20 it returns no assignment
  and leaves the state unchanged; when the sensor is known and some battery is above 20 it
  returns a drone of minimal cost among those above 20, the first such drone in the
  iteration order of \<^verbatim>\<open>drone_positions\<close>: every eligible drone before it costs strictly
  more, every eligible drone after it costs at least as much. The cost is the Euclidean
  distance plus \<open>(100 - battery) * 0.5\<close>.
\<close>

theorem schedule_task_selection:
  assumes "well_formed s"
  shows "(\<forall>d s'. schedule_task s sensor_id t = Inr (Some d, s') \<longrightarrow>
            (\<exists>b. drone_battery s d = Some b \<and> 20 < b)) \<and>
     ((\<forall>d b. drone_battery s d = Some b \<longrightarrow> b \<le> 20) \<longrightarrow>
        schedule_task s sensor_id t = Inr (None, s)) \<and>
     (\<forall>sensor_pos. sensor_positions s sensor_id = Some sensor_pos \<and>
          (\<exists>d b. drone_battery s d = Some b \<and> 20 < b) \<longrightarrow>
        (\<exists>pre d p post b s'.
           schedule_task s sensor_id t = Inr (Some d, s') \<and>
           drone_positions s = pre @ (d, p) # post \<and> drone_battery s d = Some b \<and> 20 < b \<and>
           (\<forall>(d', p') \<in> set pre. \<forall>b'. drone_battery s d' = Some b' \<and> 20 < b' \<longrightarrow>
               cost p sensor_pos b < cost p' sensor_pos b') \<and>
           (\<forall>(d', p') \<in> set post. \<forall>b'. drone_battery s d' = Some b' \<and> 20 < b' \<longrightarrow>
               cost p sensor_pos b \<le> cost p' sensor_pos b'))) \<and>
     (\<forall>p q b. cost p q b = calculate_distance p q + (100 - b) * 0.5)"
proof (intro conjI allI impI)
  fix d s'
  assume "schedule_task s sensor_id t = Inr (Some d, s')"
  then obtain sp b mc where
    "fold_err (greedy_step (drone_battery s) sp) (drone_positions s) (None, None) = Inr (Some d, mc)"
    "drone_battery s d = Some b"
    by (auto elim: schedule_task_SomeD)
  then show "\<exists>b. drone_battery s d = Some b \<and> 20 < b" by (auto elim: greedy_scan_winner)
next
  assume low: "\<forall>d b. drone_battery s d = Some b \<longrightarrow> b \<le> 20"
  from assms obtain r s' where run: "schedule_task s sensor_id t = Inr (r, s')"
    using well_formed_total by blast
  have "r = None"
  proof (cases r)
    case (Some d)
    with run obtain sp b mc where
      "fold_err (greedy_step (drone_battery s) sp) (drone_positions s) (None, None) = Inr (Some d, mc)"
      "drone_battery s d = Some b"
      by (auto elim: schedule_task_SomeD)
    then have "20 < b" by (auto elim: greedy_scan_winner)
    with low \<open>drone_battery s d = Some b\<close> show ?thesis by force
  qed simp
  with run show "schedule_task s sensor_id t = Inr (None, s)"
    by (auto dest: schedule_task_NoneD)
next
  fix sensor_pos
  assume a: "sensor_positions s sensor_id = Some sensor_pos \<and>
          (\<exists>d b. drone_battery s d = Some b \<and> 20 < b)"
  then obtain d0 b0 where d0: "drone_battery s d0 = Some b0" "20 < b0" by blast
  from assms d0(1) have "d0 \<in> fst ` set (drone_positions s)"
    unfolding well_formed_def by blast
  then obtain p0 where p0: "(d0, p0) \<in> set (drone_positions s)" by auto
  from assms have "\<forall>d \<in> fst ` set (drone_positions s). drone_battery s d \<noteq> None"
    by (auto simp: well_formed_def)
  then obtain best mc where
    scan: "fold_err (greedy_step (drone_battery s) sensor_pos) (drone_positions s) (None, None) = Inr (best, mc)"
    using greedy_scan_total by (metis surj_pair)
  have "best \<noteq> None"
  proof
    assume "best = None"
    with scan have "fold_err (greedy_step (drone_battery s) sensor_pos) (drone_positions s) (None, None) = Inr (None, mc)"
      by simp
    then have "\<forall>(d, p) \<in> set (drone_positions s). \<forall>b. drone_battery s d = Some b \<longrightarrow> b \<le> 20"
      by (rule greedy_scan_none)
    with p0 d0 show False by force
  qed
  then obtain d where best: "best = Some d" by blast
  from scan [unfolded best] obtain pre p post b where
    w: "drone_positions s = pre @ (d, p) # post" "drone_battery s d = Some b" "20 < b"
    "\<forall>(d', p') \<in> set pre. \<forall>b'. drone_battery s d' = Some b' \<and> 20 < b' \<longrightarrow>
        cost p sensor_pos b < cost p' sensor_pos b'"
    "\<forall>(d', p') \<in> set post. \<forall>b'. drone_battery s d' = Some b' \<and> 20 < b' \<longrightarrow>
        cost p sensor_pos b \<le> cost p' sensor_pos b'"
    by (rule greedy_scan_winner)
  from w(2) assms have nz: "d \<noteq> 0" unfolding well_formed_def by blast
  from w(1) have "map_of (drone_positions s) d \<noteq> None" by (simp add: map_of_eq_None_iff)
  then obtain p1 where p1: "map_of (drone_positions s) d = Some p1" by blast
  have "schedule_task s sensor_id t = Inr (Some d, assign s d p1 b sensor_id sensor_pos t)"
    using a scan best nz p1 w(2) by (simp add: schedule_task_def truthy_def)
  with w show "\<exists>pre d p post b s'.
           schedule_task s sensor_id t = Inr (Some d, s') \<and>
           drone_positions s = pre @ (d, p) # post \<and> drone_battery s d = Some b \<and> 20 < b \<and>
           (\<forall>(d', p') \<in> set pre. \<forall>b'. drone_battery s d' = Some b' \<and> 20 < b' \<longrightarrow>
               cost p sensor_pos b < cost p' sensor_pos b') \<and>
           (\<forall>(d', p') \<in> set post. \<forall>b'. drone_battery s d' = Some b' \<and> 20 < b' \<longrightarrow>
               cost p sensor_pos b \<le> cost p' sensor_pos b')"
    by blast
next
  fix p q b
  show "cost p q b = calculate_distance p q + (100 - b) * 0.5"
    by (simp add: cost_def)
qed

lemma well_formed_low_drone: "well_formed low_drone"
  by (simp add: well_formed_def low_drone_def)

lemma well_formed_two_drones: "well_formed two_drones"
  by (auto simp: well_formed_def two_drones_def)

theorem schedule_task_selection_witness:
  "well_formed low_drone \<and> schedule_task low_drone 100 7 = Inr (None, low_drone) \<and>
   well_formed two_drones \<and> (\<exists>s'. schedule_task two_drones 100 7 = Inr (Some 50, s')) \<and>
   cost (0, 0) (5, 0) 100 = 5 \<and> cost (100, 0) (5, 0) 100 = 95"
proof -
  have "\<forall>d b. drone_battery low_drone d = Some b \<longrightarrow> b \<le> 20"
    by (simp add: low_drone_def)
  with schedule_task_selection [OF well_formed_low_drone, of 100 7]
  have 1: "schedule_task low_drone 100 7 = Inr (None, low_drone)" by blast
  have "sensor_positions two_drones 100 = Some (5, 0) \<and>
     (\<exists>d b. drone_battery two_drones d = Some b \<and> 20 < b)"
    by (auto simp: two_drones_def)
  with schedule_task_selection [OF well_formed_two_drones, of 100 7]
  obtain d s' where "schedule_task two_drones 100 7 = Inr (Some d, s')" by blast
  with two_drones_run have 2: "\<exists>s'. schedule_task two_drones 100 7 = Inr (Some 50, s')" by simp
  have 3: "cost (0, 0) (5, 0) 100 = 5" "cost (100, 0) (5, 0) 100 = 95"
    by (simp_all add: cost_def calculate_distance_def)
  from 1 2 3 well_formed_low_drone well_formed_two_drones show ?thesis by blast
qed

text \<open>
  The last condition of \<open>well_formed\<close> is needed. No registry that the constructor builds
  has a drone 0; if one had, the truth test \<^verbatim>\<open>if best_drone:\<close> would drop the drone after
  the loop has chosen it.
\<close>

lemma schedule_task_drone_zero:
  "schedule_task (two_drones\<lparr>drone_positions := [(0, (0, 0))], drone_battery := [0 \<mapsto> 100]\<rparr>) 100 7
     = Inr (None, two_drones\<lparr>drone_positions := [(0, (0, 0))], drone_battery := [0 \<mapsto> 100]\<rparr>)"
  by (simp add: schedule_task_def two_drones_def greedy_step_def below_def truthy_def)

subsection \<open>The sensor grid\<close>

lemma grid_size_eq:
  assumes "0 \<le> n" and "int k * int k \<le> n" and "n < (int k + 1) * (int k + 1)"
  shows "grid_size n = Inr (k + 2)"
proof -
  from assms(2) have "real_of_int (int k * int k) \<le> real_of_int n" by (simp only: of_int_le_iff)
  then have "(real k)\<^sup>2 \<le> real_of_int n" by (simp add: power2_eq_square)
  then have lo: "real k \<le> sqrt (real_of_int n)" by (rule real_le_rsqrt)
  from assms(3) have "real_of_int n < real_of_int ((int k + 1) * (int k + 1))"
    by (simp only: of_int_less_iff)
  then have "real_of_int n < (real k + 1)\<^sup>2" by (simp add: power2_eq_square)
  moreover have "0 \<le> real k + 1" by simp
  ultimately have hi: "sqrt (real_of_int n) < real k + 1"
    using assms(1) by (intro real_less_lsqrt) simp_all
  have "\<lfloor>sqrt (real_of_int n)\<rfloor> = int k"
  proof (rule floor_unique)
    show "real_of_int (int k) \<le> sqrt (real_of_int n)" using lo by simp
    show "sqrt (real_of_int n) < real_of_int (int k) + 1" using hi by simp
  qed
  with assms(1) show ?thesis by (simp add: grid_size_def)
qed

lemma grid_size_Inr:
  assumes "0 \<le> n"
  shows "\<exists>g. grid_size n = Inr g \<and> int g = \<lfloor>sqrt (real_of_int n)\<rfloor> + 2 \<and> 2 \<le> g \<and> n \<le> int g * int g"
proof -
  let ?r = "\<lfloor>sqrt (real_of_int n)\<rfloor>"
  have r0: "0 \<le> ?r" using assms by simp
  have "sqrt (real_of_int n) < real_of_int ?r + 1" by linarith
  then have "(sqrt (real_of_int n))\<^sup>2 < (real_of_int ?r + 1)\<^sup>2"
    using assms by (intro power_strict_mono) simp_all
  then have "real_of_int n < real_of_int ((?r + 1) * (?r + 1))"
    using assms by (simp add: power2_eq_square)
  then have "n < (?r + 1) * (?r + 1)" by (simp only: of_int_less_iff)
  also have "\<dots> \<le> (?r + 2) * (?r + 2)" using r0 by (intro mult_mono) simp_all
  finally have le: "n \<le> (?r + 2) * (?r + 2)" by simp
  have g: "int (nat ?r + 2) = ?r + 2" using r0 by simp
  from le g have "n \<le> int (nat ?r + 2) * int (nat ?r + 2)" by (simp only:)
  moreover have "2 \<le> nat ?r + 2" by simp
  moreover have "grid_size n = Inr (nat ?r + 2)" using assms by (simp add: grid_size_def)
  ultimately show ?thesis using g by blast
qed

lemma grid_upto_0: "grid_upto g 0 = Map.empty"
  by (auto simp: grid_upto_def fun_eq_iff)

lemma grid_upto_Suc:
  assumes "0 \<le> c"
  shows "(grid_upto g c)(100 + c \<mapsto> (10 * (c div int g), 10 * (c mod int g))) = grid_upto g (c + 1)"
proof (rule ext)
  fix key
  show "((grid_upto g c)(100 + c \<mapsto> (10 * (c div int g), 10 * (c mod int g)))) key
      = grid_upto g (c + 1) key"
  proof (cases "key = 100 + c")
    case True
    then have "key - 100 = c" by simp
    with True assms show ?thesis by (simp add: grid_upto_def)
  next
    case False
    then show ?thesis by (auto simp: grid_upto_def)
  qed
qed

lemma place_sensor_cell:
  assumes "j < g" and "0 \<le> n" and "m = i * g + j"
  shows "place_sensor n i j (grid_upto g (min n (int m)), min n (int m))
    = (grid_upto g (min n (int (Suc m))), min n (int (Suc m)))"
proof (cases "int m < n")
  case True
  then have mn: "min n (int m) = int m" "min n (int (Suc m)) = int m + 1" by simp_all
  have "m div g = i" "m mod g = j" using assms(1,3) by simp_all
  then have "int m div int g = int i" "int m mod int g = int j"
    by (simp_all add: zdiv_int [symmetric] zmod_int [symmetric])
  with grid_upto_Suc [of "int m" g]
  have "(grid_upto g (int m))(100 + int m \<mapsto> (int i * 10, int j * 10)) = grid_upto g (int m + 1)"
    by (simp add: mult.commute)
  with True show ?thesis unfolding mn by (simp add: place_sensor_def)
next
  case False
  then have "min n (int m) = n" "min n (int (Suc m)) = n" by simp_all
  then show ?thesis by (simp add: place_sensor_def)
qed

lemma place_sensor_row:
  assumes "j \<le> g" and "0 \<le> n"
  shows "fold (\<lambda>j. place_sensor n i j) [0..<j] (grid_upto g (min n (int (i * g))), min n (int (i * g)))
    = (grid_upto g (min n (int (i * g + j))), min n (int (i * g + j)))"
  using assms(1)
proof (induction j)
  case 0
  then show ?case by simp
next
  case (Suc j)
  then have j: "j < g" "j \<le> g" by simp_all
  have "fold (\<lambda>j. place_sensor n i j) [0..<Suc j]
       (grid_upto g (min n (int (i * g))), min n (int (i * g)))
     = place_sensor n i j (fold (\<lambda>j. place_sensor n i j) [0..<j]
       (grid_upto g (min n (int (i * g))), min n (int (i * g))))" by simp
  also have "\<dots> = place_sensor n i j (grid_upto g (min n (int (i * g + j))), min n (int (i * g + j)))"
    by (simp only: Suc.IH [OF j(2)])
  also have "\<dots> = (grid_upto g (min n (int (Suc (i * g + j)))), min n (int (Suc (i * g + j))))"
    using j(1) assms(2) by (rule place_sensor_cell) simp
  finally show ?case by (simp only: add_Suc_right)
qed

lemma place_sensor_rows:
  assumes "i \<le> g" and "0 \<le> n"
  shows "fold (\<lambda>i. fold (\<lambda>j. place_sensor n i j) [0..<g]) [0..<i] (Map.empty, 0)
    = (grid_upto g (min n (int (i * g))), min n (int (i * g)))"
  using assms(1)
proof (induction i)
  case 0
  from assms(2) have "min n (int (0 * g)) = 0" by simp
  then show ?case by (simp add: grid_upto_0)
next
  case (Suc i)
  then have i: "i \<le> g" by simp
  have "fold (\<lambda>i. fold (\<lambda>j. place_sensor n i j) [0..<g]) [0..<Suc i] (Map.empty, 0)
     = fold (\<lambda>j. place_sensor n i j) [0..<g]
         (fold (\<lambda>i. fold (\<lambda>j. place_sensor n i j) [0..<g]) [0..<i] (Map.empty, 0))" by simp
  also have "\<dots> = fold (\<lambda>j. place_sensor n i j) [0..<g]
         (grid_upto g (min n (int (i * g))), min n (int (i * g)))"
    by (simp only: Suc.IH [OF i])
  also have "\<dots> = (grid_upto g (min n (int (i * g + g))), min n (int (i * g + g)))"
    using order_refl assms(2) by (rule place_sensor_row)
  also have "i * g + g = Suc i * g" by simp
  finally show ?case .
qed

lemma place_sensors_eq:
  assumes "0 \<le> n" and "n \<le> int g * int g"
  shows "fst (place_sensors n g) = grid_upto g n"
proof -
  from assms(2) have "min n (int (g * g)) = n" by simp
  with place_sensor_rows [OF order_refl assms(1), of g] show ?thesis
    by (simp add: place_sensors_def)
qed


lemma place_drones_total:
  "\<exists>dp bat. fold_err (place_drone rng g) [0..<n] ([], Map.empty) = Inr (dp, bat)"
proof (induction n)
  case 0
  then show ?case by simp
next
  case (Suc n)
  then obtain dp bat where "fold_err (place_drone rng g) [0..<n] ([], Map.empty) = Inr (dp, bat)"
    by blast
  moreover obtain x y where "place_drone rng g n (dp, bat)
      = Inr (AList.update (50 + int n) (x, y) dp, bat(50 + int n \<mapsto> 100))"
    using place_drone_Inr [of rng g n dp bat] by blast
  ultimately show ?case by (simp add: fold_err_append)
qed

text \<open>
  Claim C7, as amended. For a non-negative number of sensors the constructor succeeds, with
  a grid of \<open>floor(sqrt(num_sensors)) + 2\<close> cells per axis: sensor \<open>k\<close> has the id
  \<open>100 + k\<close> and sits at \<open>(10 * (k div g), 10 * (k mod g))\<close>, and there is no other sensor;
  the drones have the ids \<open>50, 51, \<dots>\<close> in this order, each coordinate of a drone is an
  integer of \<open>[0, 10 * g]\<close>, and every drone's battery is 100.
\<close>

theorem initialize_positions_layout:
  assumes "0 \<le> ns"
  shows "\<exists>g s. DroneTaskScheduler rng nd ns = Inr s \<and>
     int g = \<lfloor>sqrt (real_of_int ns)\<rfloor> + 2 \<and>
     (\<forall>k. sensor_positions s (100 + k)
        = (if 0 \<le> k \<and> k < ns then Some (10 * (k div int g), 10 * (k mod int g)) else None)) \<and>
     map fst (drone_positions s) = map (\<lambda>i. 50 + int i) [0..<nat nd] \<and>
     (\<forall>(d, x, y) \<in> set (drone_positions s).
        0 \<le> x \<and> x \<le> int g * 10 \<and> 0 \<le> y \<and> y \<le> int g * 10) \<and>
     dom (drone_battery s) = (\<lambda>i. 50 + int i) ` {0..<nat nd} \<and>
     (\<forall>d \<in> dom (drone_battery s). drone_battery s d = Some 100)"
proof -
  from grid_size_Inr [OF assms] obtain g where
    g: "grid_size ns = Inr g" "int g = \<lfloor>sqrt (real_of_int ns)\<rfloor> + 2" "ns \<le> int g * int g"
    by blast
  obtain dp bat where f: "fold_err (place_drone rng g) [0..<nat nd] ([], Map.empty) = Inr (dp, bat)"
    using place_drones_total by blast
  let ?s = "\<lparr>num_drones = nd, num_sensors = ns, drone_positions = dp,
       sensor_positions = fst (place_sensors ns g), drone_battery = bat,
       task_queue = [], assigned_tasks = Map.empty\<rparr>"
  have s: "DroneTaskScheduler rng nd ns = Inr ?s"
    using g(1) f by (simp add: DroneTaskScheduler_def)
  have sp: "\<forall>k. sensor_positions ?s (100 + k)
        = (if 0 \<le> k \<and> k < ns then Some (10 * (k div int g), 10 * (k mod int g)) else None)"
    using place_sensors_eq [OF assms g(3)] by (simp add: grid_upto_def)
  from place_drones_inv [OF f] have
    "map fst (drone_positions ?s) = map (\<lambda>i. 50 + int i) [0..<nat nd]"
    "(\<forall>(d, x, y) \<in> set (drone_positions ?s).
        0 \<le> x \<and> x \<le> int g * 10 \<and> 0 \<le> y \<and> y \<le> int g * 10)"
    "dom (drone_battery ?s) = (\<lambda>i. 50 + int i) ` {0..<nat nd}"
    "(\<forall>d \<in> dom (drone_battery ?s). drone_battery ?s d = Some 100)"
    by simp_all
  with s g(2) sp show ?thesis by blast
qed

lemma floor_sqrt_5: "\<lfloor>sqrt 5\<rfloor> = 2"
proof (rule floor_unique)
  show "real_of_int 2 \<le> sqrt 5" by (intro real_le_rsqrt) simp
  show "sqrt 5 < real_of_int 2 + 1" by (intro real_less_lsqrt) simp_all
qed

theorem initialize_positions_layout_witness:
  "\<exists>s. DroneTaskScheduler (\<lambda>i. 0) 2 5 = Inr s \<and>
     sensor_positions s 104 = Some (10, 0) \<and> sensor_positions s 105 = None \<and>
     map fst (drone_positions s) = [50, 51]"
proof -
  have "(0::int) \<le> 5" by simp
  from initialize_positions_layout [OF this, of "\<lambda>i. 0" 2] obtain g s where
    s: "DroneTaskScheduler (\<lambda>i. 0) 2 5 = Inr s"
    and g: "int g = \<lfloor>sqrt (real_of_int 5)\<rfloor> + 2"
    and sp: "\<forall>k. sensor_positions s (100 + k)
        = (if 0 \<le> k \<and> k < 5 then Some (10 * (k div int g), 10 * (k mod int g)) else None)"
    and dp: "map fst (drone_positions s) = map (\<lambda>i. 50 + int i) [0..<nat 2]"
    by blast
  from g have g4: "int g = 4" by (simp add: floor_sqrt_5)
  from sp [rule_format, of 4] sp [rule_format, of 5] g4
  have "sensor_positions s 104 = Some (10, 0)" "sensor_positions s 105 = None" by simp_all
  moreover from dp have "map fst (drone_positions s) = [50, 51]" by (simp add: upt_rec)
  ultimately show ?thesis using s by (intro exI [of _ s]) simp
qed

text \<open>The claim as stated fails for five sensors: the grid has 4 cells per axis, not
  \<open>ceil(sqrt 5) + 2 = 5\<close>.\<close>

theorem initialize_positions_ceil_counterexample:
  "grid_size 5 = Inr 4 \<and> ceil_grid_size 5 = 5 \<and> grid_size 5 \<noteq> Inr (ceil_grid_size 5)"
proof -
  have 1: "grid_size 5 = Inr 4" by (simp add: grid_size_def floor_sqrt_5)
  have "\<lceil>sqrt 5\<rceil> = 3"
  proof (rule ceiling_unique)
    show "real_of_int 3 - 1 < sqrt 5" by (intro real_less_rsqrt) simp
    show "sqrt 5 \<le> real_of_int 3" by (intro real_le_lsqrt) simp_all
  qed
  then have 2: "ceil_grid_size 5 = 5" by (simp add: ceil_grid_size_def)
  from 1 2 show ?thesis by simp
qed

section \<open>Properties of the batch optimizer\<close>

subsection \<open>Loops and dict updates\<close>

lemma fold_err_invariant:
  assumes "fold_err f xs s = Inr s'" and "I s"
    and "\<And>x s s'. x \<in> set xs \<Longrightarrow> I s \<Longrightarrow> f x s = Inr s' \<Longrightarrow> I s'"
  shows "I s'"
  using assms
proof (induction xs arbitrary: s)
  case Nil
  then show ?case by simp
next
  case (Cons x xs)
  from Cons.prems(1) obtain s1 where 1: "f x s = Inr s1" and 2: "fold_err f xs s1 = Inr s'"
    by (auto split: sum.splits)
  from Cons.prems(3) [of x s s1] Cons.prems(2) 1 have "I s1" by simp
  moreover have "\<And>y t t'. y \<in> set xs \<Longrightarrow> I t \<Longrightarrow> f y t = Inr t' \<Longrightarrow> I t'"
    using Cons.prems(3) by (meson list.set_intros(2))
  ultimately show ?case using 2 by (rule Cons.IH [rotated])
qed

lemma dict_append_Inr:
  assumes "dict_append a i x = Inr a'"
  shows "i < length a \<and> a' = a[i := a ! i @ [x]]"
  using assms by (auto simp: dict_append_def split: if_splits)

lemma mset_concat_update:
  assumes "i < length a"
  shows "mset (concat (a[i := ys])) + mset (a ! i) = mset (concat a) + mset ys"
  using assms
proof (induction a arbitrary: i)
  case Nil
  then show ?case by simp
next
  case (Cons xs a)
  show ?case
  proof (cases i)
    case 0
    then show ?thesis by simp
  next
    case (Suc j)
    with Cons.prems have "j < length a" by simp
    from Cons.IH [OF this] Suc show ?thesis by (simp add: ac_simps)
  qed
qed

lemma mset_concat_append:
  assumes "i < length a"
  shows "mset (concat (a[i := a ! i @ [x]])) = add_mset x (mset (concat a))"
proof -
  from mset_concat_update [OF assms, of "a ! i @ [x]"]
  have "mset (concat (a[i := a ! i @ [x]])) + mset (a ! i) = add_mset x (mset (concat a)) + mset (a ! i)"
    by (simp add: ac_simps)
  then show ?thesis by (simp only: add_right_cancel)
qed

lemma mset_concat_remove1:
  assumes "i < length a" and "x \<in> set (a ! i)"
  shows "add_mset x (mset (concat (a[i := remove1 x (a ! i)]))) = mset (concat a)"
proof -
  from mset_concat_update [OF assms(1), of "remove1 x (a ! i)"]
  have "mset (concat (a[i := remove1 x (a ! i)])) + mset (a ! i)
      = mset (concat a) + (mset (a ! i) - {#x#})" by simp
  also have "\<dots> + {#x#} = mset (concat a) + mset (a ! i)"
    using assms(2) by simp
  finally have "add_mset x (mset (concat (a[i := remove1 x (a ! i)]))) + mset (a ! i)
      = mset (concat a) + mset (a ! i)"
    by (simp add: ac_simps)
  then show ?thesis by (simp only: add_right_cancel)
qed

lemma dict_append_partition:
  assumes "dict_append a i x = Inr a'"
  shows "length a' = length a \<and> mset (concat a') = add_mset x (mset (concat a))"
proof -
  from dict_append_Inr [OF assms] have i: "i < length a" and a': "a' = a[i := a ! i @ [x]]"
    by simp_all
  from mset_concat_append [OF i, of x] a' show ?thesis by simp
qed

subsection \<open>The nearest drone\<close>

lemma py_index_Inr:
  "v \<in> set xs \<Longrightarrow> \<exists>i. py_index xs v = Inr i \<and> i < length xs \<and> xs ! i = v \<and> (\<forall>j<i. xs ! j \<noteq> v)"
proof (induction xs)
  case Nil
  then show ?case by simp
next
  case (Cons x xs)
  show ?case
  proof (cases "x = v")
    case True
    then show ?thesis by simp
  next
    case False
    with Cons obtain i where i: "py_index xs v = Inr i" "i < length xs" "xs ! i = v" "\<forall>j<i. xs ! j \<noteq> v"
      by auto
    have "\<forall>j<Suc i. (x # xs) ! j \<noteq> v"
    proof (intro allI impI)
      fix j assume "j < Suc i"
      with False i(4) show "(x # xs) ! j \<noteq> v" by (cases j) auto
    qed
    with False i show ?thesis by simp
  qed
qed

lemma py_min_Inr:
  assumes "xs \<noteq> []"
  shows "\<exists>m. py_min xs = Inr m \<and> m \<in> set xs \<and> (\<forall>x \<in> set xs. m \<le> x)"
proof -
  from assms obtain x rest where xs: "xs = x # rest" by (cases xs) auto
  have m: "fold min rest x = Min (set xs)" unfolding xs by (rule Min.set_eq_fold [symmetric])
  have "Min (set xs) \<in> set xs" using assms by (intro Min_in) simp_all
  moreover have "\<forall>y \<in> set xs. Min (set xs) \<le> y" by simp
  ultimately show ?thesis using m xs by (simp add: py_min_def)
qed

lemma closest_drone:
  assumes "drone_nodes \<noteq> []"
  shows "\<exists>c. c < length drone_nodes \<and> is_nearest drone_nodes c s \<and>
     (\<forall>a. length a = length drone_nodes \<longrightarrow>
        kmeans_step (map xy drone_nodes) s a = Inr (a[c := a ! c @ [s]]))"
proof -
  let ?ds = "map (\<lambda>centroid. ts_calculate_distance centroid (xy s)) (map xy drone_nodes)"
  have ne: "?ds \<noteq> []" using assms by simp
  from py_min_Inr [OF ne] obtain m where m: "py_min ?ds = Inr m" "m \<in> set ?ds" "\<forall>x \<in> set ?ds. m \<le> x"
    by blast
  from py_index_Inr [OF m(2)] obtain c where
    c: "py_index ?ds m = Inr c" "c < length ?ds" "?ds ! c = m" "\<forall>j<c. ?ds ! j \<noteq> m" by blast
  have len: "length ?ds = length drone_nodes" by simp
  have nth: "\<And>j. j < length drone_nodes \<Longrightarrow>
      ?ds ! j = ts_calculate_distance (xy (drone_nodes ! j)) (xy s)" by simp
  have le: "\<forall>j<length drone_nodes. m \<le> ?ds ! j"
    using m(3) by (metis len nth_mem)
  have "is_nearest drone_nodes c s"
    unfolding is_nearest_def
  proof (intro conjI ballI)
    fix j assume "j \<in> {0..<length drone_nodes}"
    then have "j < length drone_nodes" by simp
    with le c(2,3) nth show "ts_calculate_distance (xy (drone_nodes ! c)) (xy s)
          \<le> ts_calculate_distance (xy (drone_nodes ! j)) (xy s)" by (metis len)
  next
    fix j assume "j \<in> {0..<c}"
    then have j: "j < c" by simp
    with c(2) have jl: "j < length drone_nodes" by simp
    from j c(4) have "?ds ! j \<noteq> m" by blast
    moreover from le jl have "m \<le> ?ds ! j" by blast
    ultimately have "m < ?ds ! j" by simp
    with c(2,3) nth jl show "ts_calculate_distance (xy (drone_nodes ! c)) (xy s)
          < ts_calculate_distance (xy (drone_nodes ! j)) (xy s)" by (metis len)
  qed
  moreover have "\<forall>a. length a = length drone_nodes \<longrightarrow>
        kmeans_step (map xy drone_nodes) s a = Inr (a[c := a ! c @ [s]])"
    using m(1) c(1,2) by (simp add: kmeans_step_def dict_append_def)
  ultimately show ?thesis using c(2) by auto
qed

lemma is_nearest_unique:
  assumes "is_nearest drone_nodes i s" "is_nearest drone_nodes j s"
    "i < length drone_nodes" "j < length drone_nodes"
  shows "i = j"
proof (rule ccontr)
  assume "i \<noteq> j"
  then consider "i < j" | "j < i" by linarith
  then show False
  proof cases
    case 1
    with assms(2) have "ts_calculate_distance (xy (drone_nodes ! j)) (xy s)
        < ts_calculate_distance (xy (drone_nodes ! i)) (xy s)" by (simp add: is_nearest_def)
    moreover from assms(1,4) have "ts_calculate_distance (xy (drone_nodes ! i)) (xy s)
        \<le> ts_calculate_distance (xy (drone_nodes ! j)) (xy s)" by (simp add: is_nearest_def)
    ultimately show False by simp
  next
    case 2
    with assms(1) have "ts_calculate_distance (xy (drone_nodes ! i)) (xy s)
        < ts_calculate_distance (xy (drone_nodes ! j)) (xy s)" by (simp add: is_nearest_def)
    moreover from assms(2,3) have "ts_calculate_distance (xy (drone_nodes ! j)) (xy s)
        \<le> ts_calculate_distance (xy (drone_nodes ! i)) (xy s)" by (simp add: is_nearest_def)
    ultimately show False by simp
  qed
qed

lemma kmeans_loop:
  assumes "drone_nodes \<noteq> []" and "length a = length drone_nodes"
  shows "fold_err (kmeans_step (map xy drone_nodes)) sensor_nodes a
     = Inr (map (\<lambda>i. a ! i @ filter (is_nearest drone_nodes i) sensor_nodes) [0..<length drone_nodes])"
  using assms(2)
proof (induction sensor_nodes arbitrary: a)
  case Nil
  have "map (\<lambda>i. a ! i) [0..<length a] = a" by (rule map_nth)
  with Nil show ?case by simp
next
  case (Cons s rest)
  from closest_drone [OF assms(1), of s] Cons.prems obtain c where
    c: "c < length drone_nodes" "is_nearest drone_nodes c s"
    "kmeans_step (map xy drone_nodes) s a = Inr (a[c := a ! c @ [s]])" by blast
  have len: "length (a[c := a ! c @ [s]]) = length drone_nodes" using Cons.prems by simp
  have "map (\<lambda>i. (a[c := a ! c @ [s]]) ! i @ filter (is_nearest drone_nodes i) rest) [0..<length drone_nodes]
      = map (\<lambda>i. a ! i @ filter (is_nearest drone_nodes i) (s # rest)) [0..<length drone_nodes]"
  proof (rule map_cong [OF refl])
    fix i assume "i \<in> set [0..<length drone_nodes]"
    then have i: "i < length drone_nodes" by simp
    show "(a[c := a ! c @ [s]]) ! i @ filter (is_nearest drone_nodes i) rest
        = a ! i @ filter (is_nearest drone_nodes i) (s # rest)"
    proof (cases "i = c")
      case True
      with c(1,2) Cons.prems show ?thesis by simp
    next
      case False
      with c(1,2) i have "\<not> is_nearest drone_nodes i s" using is_nearest_unique by blast
      with False show ?thesis by simp
    qed
  qed
  with c(3) Cons.IH [OF len] show ?case by simp
qed

subsection \<open>The nearest-centroid partition\<close>

lemma k_means_eq:
  assumes "drone_nodes \<noteq> []"
  shows "k_means_clustering_assignment drone_nodes sensor_nodes
     = Inr (nearest_centroid_partition drone_nodes sensor_nodes)"
proof -
  have "fold_err (kmeans_step (map xy drone_nodes)) sensor_nodes (replicate (length drone_nodes) [])
     = Inr (map (\<lambda>i. replicate (length drone_nodes) [] ! i @ filter (is_nearest drone_nodes i) sensor_nodes)
          [0..<length drone_nodes])"
    using assms by (intro kmeans_loop) simp_all
  also have "map (\<lambda>i. replicate (length drone_nodes) [] ! i @ filter (is_nearest drone_nodes i) sensor_nodes)
          [0..<length drone_nodes] = nearest_centroid_partition drone_nodes sensor_nodes"
    unfolding nearest_centroid_partition_def by (rule map_cong) simp_all
  finally show ?thesis by (simp add: k_means_clustering_assignment_def Let_def)
qed

lemma k_means_partition:
  assumes "k_means_clustering_assignment drone_nodes sensor_nodes = Inr a"
  shows "exact_partition (length drone_nodes) sensor_nodes a"
proof -
  let ?n = "length drone_nodes"
  let ?I = "\<lambda>rest a. length a = ?n \<and> mset (concat a) + mset rest = mset sensor_nodes"
  have step: "\<And>s a a'. length a = ?n \<Longrightarrow> kmeans_step (map xy drone_nodes) s a = Inr a'
      \<Longrightarrow> length a' = ?n \<and> mset (concat a') = add_mset s (mset (concat a))"
    by (auto simp: kmeans_step_def Let_def split: sum.splits dest: dict_append_partition)
  have "\<And>a0 a. length a0 = ?n \<Longrightarrow> fold_err (kmeans_step (map xy drone_nodes)) rest a0 = Inr a
      \<Longrightarrow> length a = ?n \<and> mset (concat a) = mset (concat a0) + mset rest" for rest
  proof (induction rest)
    case Nil
    then show ?case by simp
  next
    case (Cons s rest)
    from Cons.prems(2) obtain a1 where 1: "kmeans_step (map xy drone_nodes) s a0 = Inr a1"
      and 2: "fold_err (kmeans_step (map xy drone_nodes)) rest a1 = Inr a"
      by (auto split: sum.splits)
    from step [OF Cons.prems(1) 1] have a1: "length a1 = ?n" "mset (concat a1) = add_mset s (mset (concat a0))"
      by simp_all
    from Cons.IH [OF a1(1) 2] a1(2) show ?case by simp
  qed
  from this [of "replicate ?n []" sensor_nodes a] assms
  show ?thesis by (simp add: k_means_clustering_assignment_def Let_def exact_partition_def)
qed

lemma distinct_concat_disjoint:
  assumes "distinct (concat a)" and "i < j" and "j < length a"
  shows "set (a ! i) \<inter> set (a ! j) = {}"
  using assms
proof (induction a arbitrary: i j)
  case Nil
  then show ?case by simp
next
  case (Cons xs rest)
  from Cons.prems(2) obtain j' where j': "j = Suc j'" by (cases j) auto
  with Cons.prems(3) have jl: "j' < length rest" by simp
  show ?case
  proof (cases i)
    case 0
    from jl have "rest ! j' \<in> set rest" by (rule nth_mem)
    then have "set (rest ! j') \<subseteq> set (concat rest)" by auto
    moreover from Cons.prems(1) have "set xs \<inter> set (concat rest) = {}" by simp
    ultimately show ?thesis using 0 j' by auto
  next
    case (Suc i')
    with Cons.prems(2) j' have "i' < j'" by simp
    moreover from Cons.prems(1) have "distinct (concat rest)" by simp
    ultimately have "set (rest ! i') \<inter> set (rest ! j') = {}" using jl by (intro Cons.IH)
    with Suc j' show ?thesis by simp
  qed
qed

lemma exact_partition_unique:
  assumes "exact_partition n sensor_nodes a" and "distinct sensor_nodes" and "s \<in> set sensor_nodes"
  shows "\<exists>!i. i < n \<and> s \<in> set (a ! i)"
proof -
  from assms(1) have len: "length a = n" and ms: "mset (concat a) = mset sensor_nodes"
    by (simp_all add: exact_partition_def)
  from ms assms(2) have d: "distinct (concat a)" using mset_eq_imp_distinct_iff by blast
  from ms assms(3) have "s \<in> set (concat a)" by (metis set_mset_mset)
  then obtain ys where "ys \<in> set a" "s \<in> set ys" by auto
  then obtain i where i: "i < n" "s \<in> set (a ! i)"
    using len by (metis in_set_conv_nth)
  moreover have "j = i" if j: "j < n" "s \<in> set (a ! j)" for j
  proof (rule ccontr)
    assume "j \<noteq> i"
    then consider "i < j" | "j < i" by linarith
    then have "set (a ! i) \<inter> set (a ! j) = {}"
    proof cases
      case 1
      with d j(1) len show ?thesis by (intro distinct_concat_disjoint) simp_all
    next
      case 2
      with d i(1) len have "set (a ! j) \<inter> set (a ! i) = {}"
        by (intro distinct_concat_disjoint) simp_all
      then show ?thesis by blast
    qed
    with i(2) j(2) show False by blast
  qed
  ultimately show ?thesis by blast
qed

text \<open>
  Claim C6. With at least one drone, \<^verbatim>\<open>k_means_clustering_assignment\<close> returns the
  nearest-centroid partition: in one pass over the sensors, drone \<open>i\<close> gets exactly the
  sensors for which no drone is nearer and every drone of lower index is strictly farther.
  The result covers the sensors exactly, each sensor of a duplicate-free list being in the
  list of one drone only. The result is a function of the two position lists alone: the
  model reads no random draw and no state.
\<close>

theorem k_means_nearest_centroid:
  assumes "drone_nodes \<noteq> []"
  shows "k_means_clustering_assignment drone_nodes sensor_nodes
       = Inr (nearest_centroid_partition drone_nodes sensor_nodes) \<and>
     exact_partition (length drone_nodes) sensor_nodes
       (nearest_centroid_partition drone_nodes sensor_nodes) \<and>
     (distinct sensor_nodes \<longrightarrow>
        (\<forall>s \<in> set sensor_nodes. \<exists>!i. i < length drone_nodes \<and>
            s \<in> set (nearest_centroid_partition drone_nodes sensor_nodes ! i))) \<and>
     (\<forall>i < length drone_nodes. \<forall>s \<in> set (nearest_centroid_partition drone_nodes sensor_nodes ! i).
        (\<forall>j < length drone_nodes.
            ts_calculate_distance (xy (drone_nodes ! i)) (xy s)
              \<le> ts_calculate_distance (xy (drone_nodes ! j)) (xy s)) \<and>
        (\<forall>j < i. ts_calculate_distance (xy (drone_nodes ! i)) (xy s)
              < ts_calculate_distance (xy (drone_nodes ! j)) (xy s)))"
proof -
  let ?p = "nearest_centroid_partition drone_nodes sensor_nodes"
  have eq: "k_means_clustering_assignment drone_nodes sensor_nodes = Inr ?p"
    using assms by (rule k_means_eq)
  then have ex: "exact_partition (length drone_nodes) sensor_nodes ?p"
    by (rule k_means_partition)
  have un: "distinct sensor_nodes \<longrightarrow>
        (\<forall>s \<in> set sensor_nodes. \<exists>!i. i < length drone_nodes \<and> s \<in> set (?p ! i))"
    using ex exact_partition_unique by blast
  have near: "\<forall>i < length drone_nodes. \<forall>s \<in> set (?p ! i).
        (\<forall>j < length drone_nodes.
            ts_calculate_distance (xy (drone_nodes ! i)) (xy s)
              \<le> ts_calculate_distance (xy (drone_nodes ! j)) (xy s)) \<and>
        (\<forall>j < i. ts_calculate_distance (xy (drone_nodes ! i)) (xy s)
              < ts_calculate_distance (xy (drone_nodes ! j)) (xy s))"
    by (simp add: nearest_centroid_partition_def is_nearest_def)
  from eq ex un near show ?thesis by blast
qed

lemma k_means_example:
  "k_means_clustering_assignment [(0, 0, ''drone_0''), (6, 0, ''drone_1'')]
      [(3, 0, ''soil_sensor_0''), (5, 0, ''soil_sensor_1'')]
     = Inr [[(3, 0, ''soil_sensor_0'')], [(5, 0, ''soil_sensor_1'')]]"
  by (simp add: k_means_clustering_assignment_def kmeans_step_def py_min_def dict_append_def
      xy_def ts_calculate_distance_def)

theorem k_means_nearest_centroid_witness:
  "k_means_clustering_assignment [(0, 0, ''drone_0''), (6, 0, ''drone_1'')]
      [(3, 0, ''soil_sensor_0''), (5, 0, ''soil_sensor_1'')]
     = Inr (nearest_centroid_partition [(0, 0, ''drone_0''), (6, 0, ''drone_1'')]
          [(3, 0, ''soil_sensor_0''), (5, 0, ''soil_sensor_1'')]) \<and>
   nearest_centroid_partition [(0, 0, ''drone_0''), (6, 0, ''drone_1'')]
      [(3, 0, ''soil_sensor_0''), (5, 0, ''soil_sensor_1'')]
     = [[(3, 0, ''soil_sensor_0'')], [(5, 0, ''soil_sensor_1'')]]"
proof -
  have ne: "[(0, 0, ''drone_0''), (6, 0, ''drone_1'')] \<noteq> ([] :: node list)" by simp
  from k_means_nearest_centroid [OF ne, of "[(3, 0, ''soil_sensor_0''), (5, 0, ''soil_sensor_1'')]"]
  have "k_means_clustering_assignment [(0, 0, ''drone_0''), (6, 0, ''drone_1'')]
      [(3, 0, ''soil_sensor_0''), (5, 0, ''soil_sensor_1'')]
     = Inr (nearest_centroid_partition [(0, 0, ''drone_0''), (6, 0, ''drone_1'')]
          [(3, 0, ''soil_sensor_0''), (5, 0, ''soil_sensor_1'')])" by blast
  with k_means_example show ?thesis by simp
qed


subsection \<open>The genetic search: draws and loops\<close>

lemma fold_err_total:
  assumes "I s" and "\<And>x s. x \<in> set xs \<Longrightarrow> I s \<Longrightarrow> \<exists>s'. f x s = Inr s' \<and> I s'"
  shows "\<exists>s'. fold_err f xs s = Inr s' \<and> I s'"
  using assms
proof (induction xs arbitrary: s)
  case Nil
  then show ?case by simp
next
  case (Cons x xs)
  from Cons.prems(2) [of x s] Cons.prems(1) obtain s1 where s1: "f x s = Inr s1" "I s1" by auto
  have "\<And>y t. y \<in> set xs \<Longrightarrow> I t \<Longrightarrow> \<exists>t'. f y t = Inr t' \<and> I t'"
    using Cons.prems(2) by (meson list.set_intros(2))
  from Cons.IH [OF s1(2) this] s1(1) show ?case by simp
qed

lemma randint_index:
  assumes "randint r 0 (int n - 1) = Inr i"
  shows "0 \<le> i \<and> nat i < n"
proof -
  from assms have n: "0 < n" and i: "i = int r mod int n"
    by (auto simp: randint_def split: if_splits)
  from n have "0 \<le> int r mod int n" "int r mod int n < int n" by simp_all
  with i show ?thesis by simp
qed

lemma randint_total: "0 < n \<Longrightarrow> \<exists>i. randint r 0 (int n - 1) = Inr i"
  by (simp add: randint_def)

lemma randint_empty: "randint r 0 (int 0 - 1) = Inl ValueError"
  by (simp add: randint_def)

lemma random_choice_Inr: "random_choice r xs = Inr x \<Longrightarrow> x \<in> set xs"
  by (auto simp: random_choice_def split: if_splits)

lemma random_choice_total: "xs \<noteq> [] \<Longrightarrow> \<exists>x. random_choice r xs = Inr x"
  by (simp add: random_choice_def)

text \<open>A loop over the sensors whose every turn adds the sensor to one list of the dict.\<close>

lemma sensor_loop_partition:
  assumes "fold_err f xs (a0, k0) = Inr (a, k)" and "length a0 = n"
    and "\<And>x a k a' k'. x \<in> set xs \<Longrightarrow> length a = n \<Longrightarrow> f x (a, k) = Inr (a', k')
        \<Longrightarrow> length a' = n \<and> mset (concat a') = add_mset x (mset (concat a))"
  shows "length a = n \<and> mset (concat a) = mset (concat a0) + mset xs"
  using assms
proof (induction xs arbitrary: a0 k0)
  case Nil
  then show ?case by simp
next
  case (Cons x xs)
  from Cons.prems(1) obtain a1 k1 where 1: "f x (a0, k0) = Inr (a1, k1)"
    and 2: "fold_err f xs (a1, k1) = Inr (a, k)"
    by (auto split: sum.splits)
  from Cons.prems(3) [of x a0 k0 a1 k1] Cons.prems(2) 1
  have a1: "length a1 = n" "mset (concat a1) = add_mset x (mset (concat a0))" by simp_all
  have "length b' = n \<and> mset (concat b') = add_mset y (mset (concat b))"
    if "y \<in> set xs" "length b = n" "f y (b, j) = Inr (b', j')" for y b j b' j'
  proof -
    from that(1) have "y \<in> set (x # xs)" by simp
    from Cons.prems(3) [OF this that(2) that(3)] show ?thesis .
  qed
  from Cons.IH [OF 2 a1(1) this] a1(2) show ?case by simp
qed

subsection \<open>The initial population\<close>

lemma init_step_partition:
  assumes "init_step rng n s (a, k) = Inr (a', k')"
  shows "length a' = length a \<and> mset (concat a') = add_mset s (mset (concat a))"
  using assms
  by (auto simp: init_step_def split: sum.splits dest: dict_append_partition)

lemma init_step_total:
  assumes "0 < n" and "length a = n"
  shows "\<exists>a' k'. init_step rng n s (a, k) = Inr (a', k') \<and> length a' = n"
proof -
  from randint_total [OF assms(1)] obtain i where i: "randint (rng k) 0 (int n - 1) = Inr i"
    by blast
  from randint_index [OF i] assms(2) have "nat i < length a" by simp
  with i assms(2) show ?thesis by (simp add: init_step_def dict_append_def)
qed

lemma random_assignment_partition:
  assumes "random_assignment rng n sensor_nodes k = Inr (a, k')"
  shows "exact_partition n sensor_nodes a"
proof -
  have "length a = n \<and> mset (concat a) = mset (concat (replicate n [])) + mset sensor_nodes"
  proof (rule sensor_loop_partition)
    show "fold_err (init_step rng n) sensor_nodes (replicate n [], k) = Inr (a, k')"
      using assms by (simp add: random_assignment_def)
    show "length (replicate n ([] :: node list)) = n" by simp
    show "\<And>x a k a' k'. x \<in> set sensor_nodes \<Longrightarrow> length a = n \<Longrightarrow> init_step rng n x (a, k) = Inr (a', k')
        \<Longrightarrow> length a' = n \<and> mset (concat a') = add_mset x (mset (concat a))"
      using init_step_partition by blast
  qed
  then show ?thesis by (simp add: exact_partition_def)
qed

lemma random_assignment_total:
  assumes "0 < n"
  shows "\<exists>a k'. random_assignment rng n sensor_nodes k = Inr (a, k')"
proof -
  have "\<exists>s'. fold_err (init_step rng n) sensor_nodes (replicate n [], k) = Inr s'
      \<and> length (fst s') = n"
  proof (rule fold_err_total [where I = "\<lambda>s. length (fst s) = n"])
    show "length (fst (replicate n ([] :: node list), k)) = n" by simp
    fix x and s :: "assignment \<times> nat"
    assume "length (fst s) = n"
    with init_step_total [OF assms, of "fst s" rng x "snd s"]
    show "\<exists>s'. init_step rng n x s = Inr s' \<and> length (fst s') = n" by auto
  qed
  then show ?thesis by (auto simp: random_assignment_def)
qed

lemma random_assignment_empty:
  "sensor_nodes \<noteq> [] \<Longrightarrow> random_assignment rng 0 sensor_nodes k = Inl ValueError"
  by (cases sensor_nodes) (simp_all add: random_assignment_def init_step_def randint_def)

lemma init_population_inv:
  assumes "init_population ps rng n sensor_nodes k = Inr (pop, k')"
  shows "length pop = ps \<and> (\<forall>a \<in> set pop. exact_partition n sensor_nodes a)"
proof -
  let ?f = "\<lambda>(_::nat) (population, k).
         case random_assignment rng n sensor_nodes k of Inl e \<Rightarrow> Inl e
         | Inr (a, k') \<Rightarrow> Inr (population @ [a], k')"
  have "\<And>pop0 k0. fold_err ?f xs (pop0, k0) = Inr (pop, k') \<Longrightarrow>
      (\<forall>a \<in> set pop0. exact_partition n sensor_nodes a) \<Longrightarrow>
      length pop = length pop0 + length xs \<and> (\<forall>a \<in> set pop. exact_partition n sensor_nodes a)" for xs
  proof (induction xs)
    case Nil
    then show ?case by simp
  next
    case (Cons x xs)
    from Cons.prems(1) obtain a k1 where 1: "random_assignment rng n sensor_nodes k0 = Inr (a, k1)"
      and 2: "fold_err ?f xs (pop0 @ [a], k1) = Inr (pop, k')"
      by (auto split: sum.splits)
    from random_assignment_partition [OF 1] Cons.prems(2)
    have "\<forall>b \<in> set (pop0 @ [a]). exact_partition n sensor_nodes b" by simp
    from Cons.IH [OF 2 this] show ?case by simp
  qed
  from this [of "[0..<ps]" "[]" k] assms show ?thesis by (simp add: init_population_def)
qed

lemma init_population_total:
  assumes "0 < n"
  shows "\<exists>pop k'. init_population ps rng n sensor_nodes k = Inr (pop, k')"
proof -
  let ?f = "\<lambda>(_::nat) (population, k).
         case random_assignment rng n sensor_nodes k of Inl e \<Rightarrow> Inl e
         | Inr (a, k') \<Rightarrow> Inr (population @ [a], k')"
  have "\<exists>s'. fold_err ?f [0..<ps] ([], k) = Inr s' \<and> True"
  proof (rule fold_err_total [where I = "\<lambda>s. True"])
    fix x :: nat and s :: "assignment list \<times> nat"
    obtain a k1 where "random_assignment rng n sensor_nodes (snd s) = Inr (a, k1)"
      using random_assignment_total [OF assms] by blast
    then show "\<exists>s'. ?f x s = Inr s' \<and> True" by (cases s) simp
  qed simp
  then show ?thesis by (auto simp: init_population_def)
qed

lemma init_population_empty:
  assumes "sensor_nodes \<noteq> []" and "0 < ps"
  shows "init_population ps rng 0 sensor_nodes k = Inl ValueError"
proof -
  from assms(2) have "[0..<ps] = 0 # [1..<ps]" by (simp add: upt_rec)
  with random_assignment_empty [OF assms(1)] show ?thesis
    by (simp add: init_population_def)
qed

subsection \<open>Crossover and mutation\<close>

lemma find_owner_Some:
  "find_owner a s = Some i \<Longrightarrow> i < length a \<and> s \<in> set (a ! i)"
proof (induction a arbitrary: i)
  case Nil
  then show ?case by simp
next
  case (Cons xs a)
  show ?case
  proof (cases "s \<in> set xs")
    case True
    with Cons.prems show ?thesis by simp
  next
    case False
    with Cons.prems obtain j where j: "find_owner a s = Some j" "i = Suc j" by auto
    from Cons.IH [OF j(1)] j(2) show ?thesis by simp
  qed
qed

lemma find_owner_total:
  "s \<in> set (concat a) \<Longrightarrow> \<exists>i. find_owner a s = Some i"
  by (induction a) auto

lemma exact_partition_owner:
  assumes "exact_partition n sensor_nodes a" and "s \<in> set sensor_nodes"
  shows "\<exists>i. find_owner a s = Some i \<and> i < n \<and> s \<in> set (a ! i)"
proof -
  from assms have "s \<in> set (concat a)"
    by (metis exact_partition_def set_mset_mset)
  then obtain i where "find_owner a s = Some i" using find_owner_total by blast
  with find_owner_Some [OF this] assms(1) show ?thesis by (simp add: exact_partition_def)
qed

lemma crossover_step_partition:
  assumes "exact_partition n sensor_nodes parent1" and "exact_partition n sensor_nodes parent2"
    and "s \<in> set sensor_nodes" and "length child = n"
  shows "\<exists>child'. crossover_step rng parent1 parent2 s (child, k) = Inr (child', k + 1) \<and>
     length child' = n \<and> mset (concat child') = add_mset s (mset (concat child))"
proof -
  let ?parent = "if random_random (rng k) < 0.5 then parent1 else parent2"
  from assms(1,2) have "exact_partition n sensor_nodes ?parent" by simp
  from exact_partition_owner [OF this assms(3)] obtain i where
    i: "find_owner ?parent s = Some i" "i < n" by blast
  with assms(4) have d: "dict_append child i s = Inr (child[i := child ! i @ [s]])"
    by (simp add: dict_append_def)
  from dict_append_partition [OF d] assms(4)
  have "length (child[i := child ! i @ [s]]) = n"
    "mset (concat (child[i := child ! i @ [s]])) = add_mset s (mset (concat child))" by simp_all
  moreover have "crossover_step rng parent1 parent2 s (child, k) = Inr (child[i := child ! i @ [s]], k + 1)"
    using i(1) d by (simp add: crossover_step_def Let_def)
  ultimately show ?thesis by blast
qed

lemma crossover_partition:
  assumes "exact_partition n sensor_nodes parent1" and "exact_partition n sensor_nodes parent2"
  shows "\<exists>child k'. crossover rng n sensor_nodes parent1 parent2 k = Inr (child, k') \<and>
     exact_partition n sensor_nodes child"
proof -
  have "\<exists>s'. fold_err (crossover_step rng parent1 parent2) sensor_nodes (replicate n [], k) = Inr s'
      \<and> length (fst s') = n"
  proof (rule fold_err_total [where I = "\<lambda>s. length (fst s) = n"])
    show "length (fst (replicate n ([] :: node list), k)) = n" by simp
    fix x and s :: "assignment \<times> nat"
    assume "x \<in> set sensor_nodes" "length (fst s) = n"
    with crossover_step_partition [OF assms, of x "fst s" rng "snd s"]
    show "\<exists>s'. crossover_step rng parent1 parent2 x s = Inr s' \<and> length (fst s') = n" by auto
  qed
  then obtain child k' where
    c: "fold_err (crossover_step rng parent1 parent2) sensor_nodes (replicate n [], k) = Inr (child, k')"
    by auto
  have "length child = n \<and> mset (concat child) = mset (concat (replicate n [])) + mset sensor_nodes"
  proof (rule sensor_loop_partition [OF c])
    show "length (replicate n ([] :: node list)) = n" by simp
    fix x a j a' j'
    assume "x \<in> set sensor_nodes" "length a = n"
      "crossover_step rng parent1 parent2 x (a, j) = Inr (a', j')"
    with crossover_step_partition [OF assms, of x a rng j]
    show "length a' = n \<and> mset (concat a') = add_mset x (mset (concat a))" by auto
  qed
  then have "exact_partition n sensor_nodes child" by (simp add: exact_partition_def)
  with c show ?thesis by (auto simp: crossover_def)
qed

text \<open>A mutation that is drawn moves one sensor; it needs a sensor to pick and a drone to
  pick for it.\<close>

lemma mutation_cases:
  assumes "exact_partition n sensor_nodes child"
  shows "(\<not> random_random (rng k) < mr \<and>
            mutation mr rng n sensor_nodes (child, k) = Inr (child, k + 1))
     \<or> (random_random (rng k) < mr \<and> sensor_nodes = [] \<and>
            mutation mr rng n sensor_nodes (child, k) = Inl IndexError)
     \<or> (random_random (rng k) < mr \<and> sensor_nodes \<noteq> [] \<and> n = 0 \<and>
            mutation mr rng n sensor_nodes (child, k) = Inl ValueError)
     \<or> (random_random (rng k) < mr \<and> sensor_nodes \<noteq> [] \<and> 0 < n \<and>
            (\<exists>child'. mutation mr rng n sensor_nodes (child, k) = Inr (child', k + 3) \<and>
               exact_partition n sensor_nodes child'))"
proof (cases "random_random (rng k) < mr")
  case False
  then show ?thesis by (simp add: mutation_def)
next
  case fired: True
  show ?thesis
  proof (cases "sensor_nodes = []")
    case True
    with fired show ?thesis by (simp add: mutation_def random_choice_def)
  next
    case ne: False
    then obtain s where s: "random_choice (rng (k + 1)) sensor_nodes = Inr s"
      using random_choice_total by blast
    then have s_in: "s \<in> set sensor_nodes" by (rule random_choice_Inr)
    from exact_partition_owner [OF assms s_in] obtain i where
      i: "find_owner child s = Some i" "i < n" "s \<in> set (child ! i)" by blast
    from assms have len: "length child = n" and ms: "mset (concat child) = mset sensor_nodes"
      by (simp_all add: exact_partition_def)
    let ?child1 = "child[i := remove1 s (child ! i)]"
    have eq: "mutation mr rng n sensor_nodes (child, k) =
        (case randint (rng (k + 2)) 0 (int n - 1) of Inl e \<Rightarrow> Inl e
         | Inr new_drone \<Rightarrow>
            (case dict_append ?child1 (nat new_drone) s of Inl e \<Rightarrow> Inl e
             | Inr c \<Rightarrow> Inr (c, k + 3)))"
      using fired s i(1) by (simp add: mutation_def Let_def)
    from i(2) have "0 < n" by simp
    then obtain j where j: "randint (rng (k + 2)) 0 (int n - 1) = Inr j"
      using randint_total by blast
    from randint_index [OF j] len have jl: "nat j < length ?child1" by simp
    then have d: "dict_append ?child1 (nat j) s = Inr (?child1[nat j := ?child1 ! nat j @ [s]])"
      by (simp add: dict_append_def)
    from dict_append_partition [OF d]
    have "length (?child1[nat j := ?child1 ! nat j @ [s]]) = n"
      "mset (concat (?child1[nat j := ?child1 ! nat j @ [s]])) = add_mset s (mset (concat ?child1))"
      using len by simp_all
    moreover have "add_mset s (mset (concat ?child1)) = mset (concat child)"
      using i(2,3) len by (intro mset_concat_remove1) simp_all
    ultimately have "exact_partition n sensor_nodes (?child1[nat j := ?child1 ! nat j @ [s]])"
      using ms by (simp add: exact_partition_def)
    moreover have "mutation mr rng n sensor_nodes (child, k)
        = Inr (?child1[nat j := ?child1 ! nat j @ [s]], k + 3)"
      unfolding eq using j d by simp
    ultimately show ?thesis using fired ne \<open>0 < n\<close> by blast
  qed
qed

lemma mutation_partition:
  assumes "exact_partition n sensor_nodes child"
    and "mutation mr rng n sensor_nodes (child, k) = Inr (child', k')"
  shows "exact_partition n sensor_nodes child'"
  using mutation_cases [OF assms(1), of rng k mr] assms by auto

lemma mutation_total:
  assumes "exact_partition n sensor_nodes child" and "sensor_nodes \<noteq> []" and "0 < n"
  shows "\<exists>child' k'. mutation mr rng n sensor_nodes (child, k) = Inr (child', k')"
  using mutation_cases [OF assms(1), of rng k mr] assms(2,3) by auto

subsection \<open>One generation\<close>

lemma make_child_partition:
  assumes "\<forall>a \<in> set survivors. exact_partition n sensor_nodes a"
    and "make_child mr rng n sensor_nodes survivors k = Inr (child, k')"
  shows "exact_partition n sensor_nodes child"
proof -
  from assms(2) obtain parent1 parent2 ck where
    p1: "random_choice (rng k) survivors = Inr parent1"
    and p2: "random_choice (rng (k + 1)) survivors = Inr parent2"
    and c: "crossover rng n sensor_nodes parent1 parent2 (k + 2) = Inr ck"
    and m: "mutation mr rng n sensor_nodes ck = Inr (child, k')"
    by (auto simp: make_child_def split: sum.splits)
  from p1 p2 assms(1) have "exact_partition n sensor_nodes parent1" "exact_partition n sensor_nodes parent2"
    by (auto dest: random_choice_Inr)
  from crossover_partition [OF this, of rng "k + 2"] c obtain c0 k0 where
    "ck = (c0, k0)" "exact_partition n sensor_nodes c0" by auto
  with m show ?thesis by (auto dest: mutation_partition)
qed

lemma make_child_total:
  assumes "\<forall>a \<in> set survivors. exact_partition n sensor_nodes a" and "survivors \<noteq> []"
    and "sensor_nodes \<noteq> []"
  shows "\<exists>child k'. make_child mr rng n sensor_nodes survivors k = Inr (child, k')"
proof -
  from assms(2) obtain parent1 parent2 where
    p1: "random_choice (rng k) survivors = Inr parent1"
    and p2: "random_choice (rng (k + 1)) survivors = Inr parent2"
    using random_choice_total by metis
  from p1 p2 assms(1) have p: "exact_partition n sensor_nodes parent1" "exact_partition n sensor_nodes parent2"
    by (auto dest: random_choice_Inr)
  from crossover_partition [OF this, of rng "k + 2"] obtain c0 k0 where
    c: "crossover rng n sensor_nodes parent1 parent2 (k + 2) = Inr (c0, k0)"
    "exact_partition n sensor_nodes c0" by auto
  have "0 < n"
  proof (rule ccontr)
    assume "\<not> 0 < n"
    with p(1) have e: "parent1 = []" by (simp add: exact_partition_def)
    from p(1) have "mset (concat parent1) = mset sensor_nodes" by (simp add: exact_partition_def)
    then have "mset sensor_nodes = {#}" unfolding e by simp
    with assms(3) show False by simp
  qed
  from mutation_total [OF c(2) assms(3) this, of mr rng k0] p1 p2 c(1)
  show ?thesis by (simp add: make_child_def)
qed

lemma refill_inv:
  assumes "\<forall>a \<in> set survivors. exact_partition n sensor_nodes a"
    and "\<forall>a \<in> set new_population. exact_partition n sensor_nodes a"
    and "refill ps mr rng n sensor_nodes survivors (new_population, k) = Inr (population, k')"
  shows "(\<forall>a \<in> set population. exact_partition n sensor_nodes a) \<and>
     (\<exists>children. population = new_population @ children) \<and>
     length population = max ps (length new_population)"
  using assms(2,3)
proof (induction "ps - length new_population" arbitrary: new_population k)
  case 0
  then have "\<not> length new_population < ps" by simp
  with "0.prems" show ?case by (simp add: max_def)
next
  case (Suc d)
  then have lt: "length new_population < ps" by simp
  with Suc.prems(2) obtain child k1 where
    mc: "make_child mr rng n sensor_nodes survivors k = Inr (child, k1)"
    and r: "refill ps mr rng n sensor_nodes survivors (new_population @ [child], k1) = Inr (population, k')"
    by (auto split: sum.splits)
  from make_child_partition [OF assms(1) mc] Suc.prems(1)
  have all: "\<forall>a \<in> set (new_population @ [child]). exact_partition n sensor_nodes a" by simp
  from Suc.hyps(2) have d: "d = ps - length (new_population @ [child])" by simp
  from Suc.hyps(1) [OF d all r] lt show ?case by (auto simp: max_def)
qed

lemma refill_total:
  assumes "\<forall>a \<in> set survivors. exact_partition n sensor_nodes a" and "survivors \<noteq> []"
    and "sensor_nodes \<noteq> []"
  shows "\<exists>population k'. refill ps mr rng n sensor_nodes survivors (new_population, k) = Inr (population, k')"
proof (induction "ps - length new_population" arbitrary: new_population k)
  case 0
  then have "\<not> length new_population < ps" by simp
  then show ?case by simp
next
  case (Suc d)
  then have lt: "length new_population < ps" by simp
  obtain child k1 where mc: "make_child mr rng n sensor_nodes survivors k = Inr (child, k1)"
    using make_child_total [OF assms] by blast
  from Suc.hyps(2) have "d = ps - length (new_population @ [child])" by simp
  from Suc.hyps(1) [OF this, of k1] lt mc show ?case by simp
qed

lemma survivors_subset: "set (take m (rank drone_nodes population)) \<subseteq> set population"
proof -
  have "set (take m (rank drone_nodes population)) \<subseteq> set (rank drone_nodes population)"
    by (rule set_take_subset)
  then show ?thesis by (simp add: rank_def)
qed

lemma generation_step_inv:
  assumes "\<forall>a \<in> set population. exact_partition (length drone_nodes) sensor_nodes a"
    and "length population = ps"
    and "generation_step ps mr rng drone_nodes sensor_nodes (population, k) = Inr (population', k')"
  shows "(\<forall>a \<in> set population'. exact_partition (length drone_nodes) sensor_nodes a) \<and>
     length population' = ps \<and>
     (\<exists>children. population' = take (ps div 2) (rank drone_nodes population) @ children)"
proof -
  let ?survivors = "take (ps div 2) (rank drone_nodes population)"
  from assms(1) survivors_subset [of "ps div 2" drone_nodes population]
  have s: "\<forall>a \<in> set ?survivors. exact_partition (length drone_nodes) sensor_nodes a" by blast
  from assms(3) have "refill ps mr rng (length drone_nodes) sensor_nodes ?survivors (?survivors, k)
      = Inr (population', k')" by (simp add: generation_step_def Let_def)
  from refill_inv [OF s s this] have
    "\<forall>a \<in> set population'. exact_partition (length drone_nodes) sensor_nodes a"
    "\<exists>children. population' = ?survivors @ children"
    "length population' = max ps (length ?survivors)" by blast+
  moreover have "length ?survivors \<le> ps" by simp
  then have "max ps (length ?survivors) = ps" by (rule max_absorb1)
  ultimately show ?thesis by (simp only:)
qed

lemma survivors_nonempty:
  assumes "2 \<le> ps" and "length population = ps"
  shows "take (ps div 2) (rank drone_nodes population) \<noteq> []"
proof -
  have "length (take (ps div 2) (rank drone_nodes population)) = ps div 2"
    using assms(2) by (simp add: rank_def)
  moreover from assms(1) have "0 < ps div 2" by simp
  ultimately show ?thesis by auto
qed

lemma generation_step_total:
  assumes "\<forall>a \<in> set population. exact_partition (length drone_nodes) sensor_nodes a"
    and "length population = ps" and "2 \<le> ps" and "sensor_nodes \<noteq> []"
  shows "\<exists>population' k'. generation_step ps mr rng drone_nodes sensor_nodes (population, k)
      = Inr (population', k')"
proof -
  let ?survivors = "take (ps div 2) (rank drone_nodes population)"
  from assms(1) survivors_subset [of "ps div 2" drone_nodes population]
  have s: "\<forall>a \<in> set ?survivors. exact_partition (length drone_nodes) sensor_nodes a" by blast
  from survivors_nonempty [OF assms(3,2)] have ne: "?survivors \<noteq> []" .
  from refill_total [OF s ne assms(4), of ps mr rng ?survivors k]
  show ?thesis by (simp add: generation_step_def Let_def)
qed

subsection \<open>The run\<close>

lemma evolve_Suc:
  "evolve ps mr rng drone_nodes sensor_nodes (Suc g) =
     (case evolve ps mr rng drone_nodes sensor_nodes g of Inl e \<Rightarrow> Inl e
      | Inr pk \<Rightarrow> generation_step ps mr rng drone_nodes sensor_nodes pk)"
  by (simp add: evolve_def fold_err_append split: sum.splits)

lemma evolve_0:
  "evolve ps mr rng drone_nodes sensor_nodes 0
     = init_population ps rng (length drone_nodes) sensor_nodes 0"
  by (simp add: evolve_def split: sum.splits)

lemma evolve_inv:
  assumes "evolve ps mr rng drone_nodes sensor_nodes g = Inr (population, k)"
  shows "length population = ps \<and>
     (\<forall>a \<in> set population. exact_partition (length drone_nodes) sensor_nodes a)"
  using assms
proof (induction g arbitrary: population k)
  case 0
  then show ?case using init_population_inv by (simp add: evolve_0)
next
  case (Suc g)
  from Suc.prems obtain pop0 k0 where
    e: "evolve ps mr rng drone_nodes sensor_nodes g = Inr (pop0, k0)"
    and s: "generation_step ps mr rng drone_nodes sensor_nodes (pop0, k0) = Inr (population, k)"
    by (auto simp: evolve_Suc split: sum.splits)
  from Suc.IH [OF e] generation_step_inv [OF _ _ s] show ?case by blast
qed

lemma evolve_total:
  assumes "drone_nodes \<noteq> []" and "sensor_nodes \<noteq> []" and "2 \<le> ps"
  shows "\<exists>population k. evolve ps mr rng drone_nodes sensor_nodes g = Inr (population, k)"
proof (induction g)
  case 0
  from assms(1) have "0 < length drone_nodes" by simp
  from init_population_total [OF this] show ?case by (simp add: evolve_0)
next
  case (Suc g)
  then obtain pop0 k0 where e: "evolve ps mr rng drone_nodes sensor_nodes g = Inr (pop0, k0)"
    by blast
  from evolve_inv [OF e] have "length pop0 = ps"
    "\<forall>a \<in> set pop0. exact_partition (length drone_nodes) sensor_nodes a" by simp_all
  from generation_step_total [OF this(2,1) assms(3,2), of mr rng k0] e
  show ?case by (simp add: evolve_Suc)
qed

lemma best_of_max:
  assumes "population \<noteq> []"
  shows "\<exists>best. best_of drone_nodes population = Inr best \<and> best \<in> set population \<and>
     (\<forall>a \<in> set population. fitness drone_nodes a \<le> fitness drone_nodes best)"
proof -
  let ?r = "rank drone_nodes population"
  have set: "set ?r = set population" by (simp add: rank_def)
  with assms obtain best rest where r: "?r = best # rest" by (cases ?r) auto
  have "sorted (map (\<lambda>a. - fitness drone_nodes a) ?r)"
    unfolding rank_def by (rule sorted_sort_key)
  with r have "\<forall>a \<in> set rest. - fitness drone_nodes best \<le> - fitness drone_nodes a" by simp
  then have "\<forall>a \<in> set ?r. fitness drone_nodes a \<le> fitness drone_nodes best"
    unfolding r by auto
  with set r show ?thesis by (auto simp: best_of_def)
qed

lemma genetic_search_InrD:
  assumes "genetic_search ps gens mr rng drone_nodes sensor_nodes = Inr best"
  obtains population k where "evolve ps mr rng drone_nodes sensor_nodes gens = Inr (population, k)"
    "best_of drone_nodes population = Inr best"
  using assms by (auto simp: genetic_search_def split: sum.splits)

lemma best_of_Inr:
  assumes "best_of drone_nodes population = Inr best"
  shows "best \<in> set population \<and> (\<forall>a \<in> set population. fitness drone_nodes a \<le> fitness drone_nodes best)"
proof -
  from assms have "population \<noteq> []" by (auto simp: best_of_def rank_def)
  from best_of_max [OF this, of drone_nodes] assms show ?thesis by auto
qed

lemma genetic_search_total:
  assumes "drone_nodes \<noteq> []" and "sensor_nodes \<noteq> []" and "2 \<le> ps"
  shows "\<exists>best. genetic_search ps gens mr rng drone_nodes sensor_nodes = Inr best"
proof -
  from evolve_total [OF assms] obtain population k where
    e: "evolve ps mr rng drone_nodes sensor_nodes gens = Inr (population, k)" by blast
  from evolve_inv [OF e] assms(3) have "population \<noteq> []" by auto
  from best_of_max [OF this, of drone_nodes] e show ?thesis by (auto simp: genetic_search_def)
qed

text \<open>
  Claim C4. In a run of \<^verbatim>\<open>genetic_algorithm_optimization\<close>, every candidate of the
  population covers the sensors exactly, initially (\<open>g = 0\<close>) and after every number \<open>g\<close> of
  generations; a crossover of two exact partitions is an exact partition, and so is the
  mutation of one; the returned candidate is an exact partition, and with at least one
  drone and one sensor a candidate is returned. When no sensor is listed twice, an exact
  partition has each sensor in the list of exactly one drone.
\<close>

theorem genetic_search_coverage:
  "(\<forall>g population k.
      evolve population_size mutation_rate rng drone_nodes sensor_nodes g = Inr (population, k) \<longrightarrow>
      (\<forall>a \<in> set population. exact_partition (length drone_nodes) sensor_nodes a)) \<and>
   (\<forall>n parent1 parent2 k child k'.
      exact_partition n sensor_nodes parent1 \<and> exact_partition n sensor_nodes parent2 \<and>
      crossover rng n sensor_nodes parent1 parent2 k = Inr (child, k') \<longrightarrow>
      exact_partition n sensor_nodes child) \<and>
   (\<forall>n child k child' k'.
      exact_partition n sensor_nodes child \<and>
      mutation mutation_rate rng n sensor_nodes (child, k) = Inr (child', k') \<longrightarrow>
      exact_partition n sensor_nodes child') \<and>
   (\<forall>best. genetic_algorithm_optimization rng drone_nodes sensor_nodes = Inr best \<longrightarrow>
      exact_partition (length drone_nodes) sensor_nodes best) \<and>
   (drone_nodes \<noteq> [] \<and> sensor_nodes \<noteq> [] \<longrightarrow>
      (\<exists>best. genetic_algorithm_optimization rng drone_nodes sensor_nodes = Inr best)) \<and>
   (\<forall>a s. exact_partition (length drone_nodes) sensor_nodes a \<and> distinct sensor_nodes \<and>
      s \<in> set sensor_nodes \<longrightarrow> (\<exists>!i. i < length drone_nodes \<and> s \<in> set (a ! i)))"
proof (intro conjI allI impI)
  fix g population k
  assume "evolve population_size mutation_rate rng drone_nodes sensor_nodes g = Inr (population, k)"
  from evolve_inv [OF this]
  show "\<forall>a \<in> set population. exact_partition (length drone_nodes) sensor_nodes a" by simp
next
  fix n parent1 parent2 k child k'
  assume a: "exact_partition n sensor_nodes parent1 \<and> exact_partition n sensor_nodes parent2 \<and>
      crossover rng n sensor_nodes parent1 parent2 k = Inr (child, k')"
  then have "exact_partition n sensor_nodes parent1" "exact_partition n sensor_nodes parent2"
    by simp_all
  from crossover_partition [OF this, of rng k] a show "exact_partition n sensor_nodes child" by auto
next
  fix n child k child' k'
  assume "exact_partition n sensor_nodes child \<and>
      mutation mutation_rate rng n sensor_nodes (child, k) = Inr (child', k')"
  then show "exact_partition n sensor_nodes child'" using mutation_partition by blast
next
  fix best
  assume "genetic_algorithm_optimization rng drone_nodes sensor_nodes = Inr best"
  then have "genetic_search population_size generations mutation_rate rng drone_nodes sensor_nodes
      = Inr best" by (simp add: genetic_algorithm_optimization_def)
  then obtain population k where
    e: "evolve population_size mutation_rate rng drone_nodes sensor_nodes generations = Inr (population, k)"
    and b: "best_of drone_nodes population = Inr best"
    by (rule genetic_search_InrD)
  from best_of_Inr [OF b] evolve_inv [OF e]
  show "exact_partition (length drone_nodes) sensor_nodes best" by blast
next
  assume "drone_nodes \<noteq> [] \<and> sensor_nodes \<noteq> []"
  then have "drone_nodes \<noteq> []" "sensor_nodes \<noteq> []" by simp_all
  moreover have "2 \<le> population_size" by (simp add: population_size_def)
  ultimately show "\<exists>best. genetic_algorithm_optimization rng drone_nodes sensor_nodes = Inr best"
    unfolding genetic_algorithm_optimization_def by (rule genetic_search_total)
next
  fix a s
  assume "exact_partition (length drone_nodes) sensor_nodes a \<and> distinct sensor_nodes \<and>
      s \<in> set sensor_nodes"
  then show "\<exists>!i. i < length drone_nodes \<and> s \<in> set (a ! i)"
    using exact_partition_unique by blast
qed

theorem genetic_search_coverage_witness:
  "\<exists>best. genetic_algorithm_optimization (\<lambda>i. 0)
       [(0, 0, ''drone_0''), (6, 0, ''drone_1'')]
       [(3, 0, ''soil_sensor_0''), (5, 0, ''soil_sensor_1'')] = Inr best \<and>
     exact_partition 2 [(3, 0, ''soil_sensor_0''), (5, 0, ''soil_sensor_1'')] best \<and>
     (\<exists>!i. i < 2 \<and> (5, 0, ''soil_sensor_1'') \<in> set (best ! i))"
proof -
  let ?D = "[(0, 0, ''drone_0''), (6, 0, ''drone_1'')] :: node list"
  let ?S = "[(3, 0, ''soil_sensor_0''), (5, 0, ''soil_sensor_1'')] :: node list"
  note c = genetic_search_coverage [of "\<lambda>i. 0" ?D ?S]
  note returned = c [THEN conjunct2, THEN conjunct2, THEN conjunct2, THEN conjunct1, rule_format]
  note total = c [THEN conjunct2, THEN conjunct2, THEN conjunct2, THEN conjunct2, THEN conjunct1,
      rule_format]
  note one = c [THEN conjunct2, THEN conjunct2, THEN conjunct2, THEN conjunct2, THEN conjunct2,
      rule_format]
  have "?D \<noteq> [] \<and> ?S \<noteq> []" by simp
  from total [OF this] obtain best where
    b: "genetic_algorithm_optimization (\<lambda>i. 0) ?D ?S = Inr best" by blast
  from returned [OF b] have e: "exact_partition (length ?D) ?S best" .
  have "distinct ?S" "(5, 0, ''soil_sensor_1'') \<in> set ?S" by simp_all
  with e have "exact_partition (length ?D) ?S best \<and> distinct ?S \<and>
      (5, 0, ''soil_sensor_1'') \<in> set ?S" by blast
  from one [OF this] have "\<exists>!i. i < length ?D \<and> (5, 0, ''soil_sensor_1'') \<in> set (best ! i)" .
  with b e show ?thesis by (intro exI [of _ best]) (simp add: numeral_2_eq_2)
qed

subsection \<open>Fitness over the generations\<close>

lemma generation_keeps_best:
  assumes "\<forall>a \<in> set population. exact_partition (length drone_nodes) sensor_nodes a"
    and "length population = ps" and "2 \<le> ps"
    and "generation_step ps mr rng drone_nodes sensor_nodes (population, k) = Inr (population', k')"
  shows "take (ps div 2) population' = take (ps div 2) (rank drone_nodes population) \<and>
     Max (fitness drone_nodes ` set population) \<le> Max (fitness drone_nodes ` set population')"
proof -
  let ?survivors = "take (ps div 2) (rank drone_nodes population)"
  from generation_step_inv [OF assms(1,2,4)] obtain children where
    p': "population' = ?survivors @ children" and len: "length population' = ps" by blast
  have ls: "length ?survivors = ps div 2" using assms(2) by (simp add: rank_def)
  have 1: "take (ps div 2) population' = ?survivors" unfolding p' using ls by simp
  from assms(2,3) have ne: "population \<noteq> []" by auto
  from best_of_max [OF ne, of drone_nodes] obtain best where
    b: "best_of drone_nodes population = Inr best"
    "\<forall>a \<in> set population. fitness drone_nodes a \<le> fitness drone_nodes best" by blast
  from b(1) obtain rest where r: "rank drone_nodes population = best # rest"
    by (auto simp: best_of_def split: list.splits)
  from assms(3) have "0 < ps div 2" by simp
  then have "best \<in> set ?survivors" unfolding r by (cases "ps div 2") simp_all
  then have bin: "best \<in> set population'" unfolding p' by simp
  have "Max (fitness drone_nodes ` set population) \<le> fitness drone_nodes best"
    using b(2) ne by (intro Max.boundedI) auto
  also have "\<dots> \<le> Max (fitness drone_nodes ` set population')"
    using bin by (intro Max_ge) auto
  finally show ?thesis using 1 by simp
qed

text \<open>
  Claim C5. In a run of \<^verbatim>\<open>genetic_algorithm_optimization\<close>, the top half of the ranking
  of a generation opens the next population unchanged, and the maximal fitness in the
  population after \<open>g + 1\<close> generations is at least the maximal fitness after \<open>g\<close>. The
  value returned is a candidate of the population after the last generation, and no
  candidate of that population has a greater fitness.
\<close>

theorem genetic_search_monotone:
  "(\<forall>g population k population' k'.
      evolve population_size mutation_rate rng drone_nodes sensor_nodes g = Inr (population, k) \<and>
      evolve population_size mutation_rate rng drone_nodes sensor_nodes (Suc g) = Inr (population', k') \<longrightarrow>
      take (population_size div 2) population'
        = take (population_size div 2) (rank drone_nodes population) \<and>
      Max (fitness drone_nodes ` set population) \<le> Max (fitness drone_nodes ` set population')) \<and>
   (\<forall>population k.
      evolve population_size mutation_rate rng drone_nodes sensor_nodes generations = Inr (population, k) \<longrightarrow>
      (\<exists>best. genetic_algorithm_optimization rng drone_nodes sensor_nodes = Inr best \<and>
         best \<in> set population \<and>
         (\<forall>a \<in> set population. fitness drone_nodes a \<le> fitness drone_nodes best))) \<and>
   (\<forall>best. genetic_algorithm_optimization rng drone_nodes sensor_nodes = Inr best \<longrightarrow>
      (\<exists>population k.
         evolve population_size mutation_rate rng drone_nodes sensor_nodes generations = Inr (population, k) \<and>
         best \<in> set population \<and>
         (\<forall>a \<in> set population. fitness drone_nodes a \<le> fitness drone_nodes best)))"
proof -
  have step: "\<forall>g population k population' k'.
      evolve population_size mutation_rate rng drone_nodes sensor_nodes g = Inr (population, k) \<and>
      evolve population_size mutation_rate rng drone_nodes sensor_nodes (Suc g) = Inr (population', k') \<longrightarrow>
      take (population_size div 2) population'
        = take (population_size div 2) (rank drone_nodes population) \<and>
      Max (fitness drone_nodes ` set population) \<le> Max (fitness drone_nodes ` set population')"
  proof (intro allI impI)
    fix g population k population' k'
    assume a: "evolve population_size mutation_rate rng drone_nodes sensor_nodes g = Inr (population, k) \<and>
        evolve population_size mutation_rate rng drone_nodes sensor_nodes (Suc g) = Inr (population', k')"
    then have e: "evolve population_size mutation_rate rng drone_nodes sensor_nodes g = Inr (population, k)"
      and e': "evolve population_size mutation_rate rng drone_nodes sensor_nodes (Suc g) = Inr (population', k')"
      by simp_all
    from e' have s: "generation_step population_size mutation_rate rng drone_nodes sensor_nodes (population, k)
        = Inr (population', k')" unfolding evolve_Suc e by simp
    from evolve_inv [OF e] have i: "length population = population_size"
      "\<forall>a \<in> set population. exact_partition (length drone_nodes) sensor_nodes a" by simp_all
    have "2 \<le> population_size" by (simp add: population_size_def)
    from generation_keeps_best [OF i(2,1) this s]
    show "take (population_size div 2) population'
          = take (population_size div 2) (rank drone_nodes population) \<and>
        Max (fitness drone_nodes ` set population) \<le> Max (fitness drone_nodes ` set population')" .
  qed
  have final: "\<forall>population k.
      evolve population_size mutation_rate rng drone_nodes sensor_nodes generations = Inr (population, k) \<longrightarrow>
      (\<exists>best. genetic_algorithm_optimization rng drone_nodes sensor_nodes = Inr best \<and>
         best \<in> set population \<and>
         (\<forall>a \<in> set population. fitness drone_nodes a \<le> fitness drone_nodes best))"
  proof (intro allI impI)
    fix population k
    assume e: "evolve population_size mutation_rate rng drone_nodes sensor_nodes generations
        = Inr (population, k)"
    from evolve_inv [OF e] have "population \<noteq> []" by (auto simp: population_size_def)
    from best_of_max [OF this, of drone_nodes] e
    show "\<exists>best. genetic_algorithm_optimization rng drone_nodes sensor_nodes = Inr best \<and>
           best \<in> set population \<and>
           (\<forall>a \<in> set population. fitness drone_nodes a \<le> fitness drone_nodes best)"
      by (auto simp: genetic_algorithm_optimization_def genetic_search_def)
  qed
  have returned: "\<forall>best. genetic_algorithm_optimization rng drone_nodes sensor_nodes = Inr best \<longrightarrow>
      (\<exists>population k.
         evolve population_size mutation_rate rng drone_nodes sensor_nodes generations = Inr (population, k) \<and>
         best \<in> set population \<and>
         (\<forall>a \<in> set population. fitness drone_nodes a \<le> fitness drone_nodes best))"
  proof (intro allI impI)
    fix best
    assume "genetic_algorithm_optimization rng drone_nodes sensor_nodes = Inr best"
    then have "genetic_search population_size generations mutation_rate rng drone_nodes sensor_nodes
        = Inr best" by (simp add: genetic_algorithm_optimization_def)
    then obtain population k where
      e: "evolve population_size mutation_rate rng drone_nodes sensor_nodes generations = Inr (population, k)"
      and b: "best_of drone_nodes population = Inr best"
      by (rule genetic_search_InrD)
    from best_of_Inr [OF b] e
    show "\<exists>population k.
           evolve population_size mutation_rate rng drone_nodes sensor_nodes generations = Inr (population, k) \<and>
           best \<in> set population \<and>
           (\<forall>a \<in> set population. fitness drone_nodes a \<le> fitness drone_nodes best)" by blast
  qed
  from step final returned show ?thesis by (intro conjI)
qed

theorem genetic_search_monotone_witness:
  "\<exists>population k population' k' best.
     evolve population_size mutation_rate (\<lambda>i. 0) [(0, 0, ''drone_0''), (6, 0, ''drone_1'')]
       [(3, 0, ''soil_sensor_0''), (5, 0, ''soil_sensor_1'')] 0 = Inr (population, k) \<and>
     evolve population_size mutation_rate (\<lambda>i. 0) [(0, 0, ''drone_0''), (6, 0, ''drone_1'')]
       [(3, 0, ''soil_sensor_0''), (5, 0, ''soil_sensor_1'')] (Suc 0) = Inr (population', k') \<and>
     Max (fitness [(0, 0, ''drone_0''), (6, 0, ''drone_1'')] ` set population)
       \<le> Max (fitness [(0, 0, ''drone_0''), (6, 0, ''drone_1'')] ` set population') \<and>
     genetic_algorithm_optimization (\<lambda>i. 0) [(0, 0, ''drone_0''), (6, 0, ''drone_1'')]
       [(3, 0, ''soil_sensor_0''), (5, 0, ''soil_sensor_1'')] = Inr best"
proof -
  let ?D = "[(0, 0, ''drone_0''), (6, 0, ''drone_1'')] :: node list"
  let ?S = "[(3, 0, ''soil_sensor_0''), (5, 0, ''soil_sensor_1'')] :: node list"
  have ne: "?D \<noteq> []" "?S \<noteq> []" "2 \<le> population_size" by (simp_all add: population_size_def)
  from evolve_total [OF ne] obtain population k where
    e0: "evolve population_size mutation_rate (\<lambda>i. 0) ?D ?S 0 = Inr (population, k)" by blast
  from evolve_total [OF ne] obtain population' k' where
    e1: "evolve population_size mutation_rate (\<lambda>i. 0) ?D ?S (Suc 0) = Inr (population', k')" by blast
  from evolve_total [OF ne] obtain final kf where
    ef: "evolve population_size mutation_rate (\<lambda>i. 0) ?D ?S generations = Inr (final, kf)" by blast
  note m = genetic_search_monotone [of "\<lambda>i. 0" ?D ?S]
  note step = m [THEN conjunct1, rule_format]
  note final = m [THEN conjunct2, THEN conjunct1, rule_format]
  from e0 e1 have "evolve population_size mutation_rate (\<lambda>i. 0) ?D ?S 0 = Inr (population, k) \<and>
      evolve population_size mutation_rate (\<lambda>i. 0) ?D ?S (Suc 0) = Inr (population', k')" by simp
  from step [OF this]
  have "Max (fitness ?D ` set population) \<le> Max (fitness ?D ` set population')" by simp
  moreover from final [OF ef] obtain best where
    "genetic_algorithm_optimization (\<lambda>i. 0) ?D ?S = Inr best" by blast
  ultimately show ?thesis using e0 e1 by blast
qed

subsection \<open>Empty position lists\<close>

lemma k_means_no_drones:
  assumes "sensor_nodes \<noteq> []"
  shows "k_means_clustering_assignment [] sensor_nodes = Inl ValueError"
proof -
  from assms obtain s rest where "sensor_nodes = s # rest" by (cases sensor_nodes) auto
  then show ?thesis
    by (simp add: k_means_clustering_assignment_def kmeans_step_def py_min_def)
qed

lemma k_means_no_sensors:
  "k_means_clustering_assignment drone_nodes [] = Inr (replicate (length drone_nodes) [])"
  by (simp add: k_means_clustering_assignment_def)

lemma genetic_no_drones:
  assumes "sensor_nodes \<noteq> []"
  shows "genetic_algorithm_optimization rng [] sensor_nodes = Inl ValueError"
proof -
  have "0 < population_size" by (simp add: population_size_def)
  from init_population_empty [OF assms this, of rng 0] show ?thesis
    by (simp add: genetic_algorithm_optimization_def genetic_search_def evolve_def)
qed

lemma schedule_of_empty_lists:
  assumes "\<forall>(i, sensors) \<in> set ps. sensors = []"
  shows "fold_err (\<lambda>(drone_idx, sensors). fold_err (schedule_sensor drone_nodes drone_idx) sensors)
       ps sch = Inr sch"
  using assms by (induction ps) auto

lemma schedule_of_replicate:
  "schedule_of drone_nodes (replicate n []) = Inr []"
proof -
  have "\<forall>(i, sensors) \<in> set (enumerate 0 (replicate n ([] :: node list))). sensors = []"
    by (auto simp: in_set_enumerate_eq)
  then show ?thesis unfolding schedule_of_def by (rule schedule_of_empty_lists)
qed

lemma exact_partition_no_sensors:
  assumes "exact_partition n [] a"
  shows "a = replicate n []"
proof -
  from assms have len: "length a = n" and "concat a = []" by (simp_all add: exact_partition_def)
  then have "\<forall>xs \<in> set a. xs = []" by simp
  then have "replicate (length a) [] = a" by (rule replicate_length_same)
  with len show ?thesis by simp
qed

text \<open>Without sensors the genetic search can only fail with \<^verbatim>\<open>IndexError\<close>.\<close>

lemma make_child_no_sensors:
  "make_child mr rng n [] survivors k = Inl e \<Longrightarrow> e = IndexError"
  by (auto simp: make_child_def random_choice_def crossover_def mutation_def
      split: sum.splits if_splits)

lemma refill_no_sensors:
  "refill ps mr rng n [] survivors (new_population, k) = Inl e \<Longrightarrow> e = IndexError"
proof (induction "ps - length new_population" arbitrary: new_population k)
  case 0
  then have "\<not> length new_population < ps" by simp
  with "0.prems" show ?case by simp
next
  case (Suc d)
  then have lt: "length new_population < ps" by simp
  show ?case
  proof (cases "make_child mr rng n [] survivors k")
    case (Inl e')
    with Suc.prems lt have "e = e'" by simp
    with Inl show ?thesis by (simp add: make_child_no_sensors)
  next
    case (Inr ck)
    obtain child k1 where ck: "ck = (child, k1)" by (cases ck)
    with Inr Suc.prems lt have
      r: "refill ps mr rng n [] survivors (new_population @ [child], k1) = Inl e" by simp
    from Suc.hyps(2) have "d = ps - length (new_population @ [child])" by simp
    from Suc.hyps(1) [OF this r] show ?thesis .
  qed
qed

lemma init_population_no_sensors:
  "\<exists>population k'. init_population ps rng n [] k = Inr (population, k')"
proof -
  let ?f = "\<lambda>(_::nat) (population, k).
         case random_assignment rng n [] k of Inl e \<Rightarrow> Inl e
         | Inr (a, k') \<Rightarrow> Inr (population @ [a], k')"
  have "\<exists>s'. fold_err ?f [0..<ps] ([], k) = Inr s' \<and> True"
  proof (rule fold_err_total [where I = "\<lambda>s. True"])
    fix x :: nat and s :: "assignment list \<times> nat"
    show "\<exists>s'. ?f x s = Inr s' \<and> True" by (cases s) (simp add: random_assignment_def)
  qed simp
  then show ?thesis by (auto simp: init_population_def)
qed

lemma evolve_no_sensors:
  "evolve ps mr rng drone_nodes [] g = Inl e \<Longrightarrow> e = IndexError"
proof (induction g)
  case 0
  with init_population_no_sensors [of ps rng "length drone_nodes" 0] show ?case
    by (auto simp: evolve_0)
next
  case (Suc g)
  show ?case
  proof (cases "evolve ps mr rng drone_nodes [] g")
    case (Inl e')
    with Suc show ?thesis by (simp add: evolve_Suc)
  next
    case (Inr pk)
    obtain population k where "pk = (population, k)" by (cases pk)
    with Inr Suc.prems have "refill ps mr rng (length drone_nodes) []
        (take (ps div 2) (rank drone_nodes population))
        (take (ps div 2) (rank drone_nodes population), k) = Inl e"
      by (simp add: evolve_Suc generation_step_def Let_def)
    then show ?thesis by (rule refill_no_sensors)
  qed
qed

lemma genetic_no_sensors:
  "genetic_algorithm_optimization rng drone_nodes [] = Inl IndexError \<or>
   genetic_algorithm_optimization rng drone_nodes [] = Inr (replicate (length drone_nodes) [])"
proof (cases "genetic_algorithm_optimization rng drone_nodes []")
  case (Inl e)
  then have g: "genetic_search population_size generations mutation_rate rng drone_nodes [] = Inl e"
    by (simp add: genetic_algorithm_optimization_def)
  have "e = IndexError"
  proof (cases "evolve population_size mutation_rate rng drone_nodes [] generations")
    case (Inl e')
    with g have "e = e'" by (simp add: genetic_search_def)
    with Inl show ?thesis by (simp add: evolve_no_sensors)
  next
    case (Inr pk)
    with g show ?thesis
      by (auto simp: genetic_search_def best_of_def split: prod.splits list.splits)
  qed
  with Inl show ?thesis by simp
next
  case (Inr best)
  then have "genetic_search population_size generations mutation_rate rng drone_nodes [] = Inr best"
    by (simp add: genetic_algorithm_optimization_def)
  then obtain population k where
    e: "evolve population_size mutation_rate rng drone_nodes [] generations = Inr (population, k)"
    and b: "best_of drone_nodes population = Inr best"
    by (rule genetic_search_InrD)
  from best_of_Inr [OF b] evolve_inv [OF e]
  have "exact_partition (length drone_nodes) [] best" by blast
  with Inr show ?thesis by (simp add: exact_partition_no_sensors)
qed

text \<open>
  Claim C8, as amended. The batch optimizer checks nothing and has no error of its own.
  With no drone and at least one sensor, both modes and \<^verbatim>\<open>generate_schedule\<close> fail with
  the \<^verbatim>\<open>ValueError\<close> of \<^verbatim>\<open>min\<close> or of \<^verbatim>\<open>random.randint\<close>. With no sensor, the
  nearest-centroid mode returns the partition that gives every drone the empty list, and
  \<^verbatim>\<open>generate_schedule\<close> an empty schedule with it; the genetic mode returns the same
  partition, or fails with the \<^verbatim>\<open>IndexError\<close> of \<^verbatim>\<open>random.choice\<close> when a mutation is
  drawn.
\<close>

theorem batch_optimizer_empty_inputs:
  "(sensor_nodes \<noteq> [] \<longrightarrow>
      k_means_clustering_assignment [] sensor_nodes = Inl ValueError \<and>
      genetic_algorithm_optimization rng [] sensor_nodes = Inl ValueError \<and>
      generate_schedule rng [] sensor_nodes algorithm = Inl ValueError) \<and>
   k_means_clustering_assignment drone_nodes [] = Inr (replicate (length drone_nodes) []) \<and>
   generate_schedule rng drone_nodes [] ''kmeans'' = Inr ([], replicate (length drone_nodes) []) \<and>
   (genetic_algorithm_optimization rng drone_nodes [] = Inl IndexError \<or>
    genetic_algorithm_optimization rng drone_nodes [] = Inr (replicate (length drone_nodes) []))"
proof -
  have 1: "sensor_nodes \<noteq> [] \<longrightarrow>
      k_means_clustering_assignment [] sensor_nodes = Inl ValueError \<and>
      genetic_algorithm_optimization rng [] sensor_nodes = Inl ValueError \<and>
      generate_schedule rng [] sensor_nodes algorithm = Inl ValueError"
    by (simp add: k_means_no_drones genetic_no_drones generate_schedule_def)
  have 2: "generate_schedule rng drone_nodes [] ''kmeans'' = Inr ([], replicate (length drone_nodes) [])"
    by (simp add: generate_schedule_def k_means_no_sensors schedule_of_replicate)
  from 1 2 k_means_no_sensors genetic_no_sensors show ?thesis by (intro conjI)
qed

theorem batch_optimizer_empty_inputs_witness:
  "k_means_clustering_assignment [] [(3, 0, ''soil_sensor_0'')] = Inl ValueError \<and>
   genetic_algorithm_optimization (\<lambda>i. 0) [] [(3, 0, ''soil_sensor_0'')] = Inl ValueError \<and>
   generate_schedule (\<lambda>i. 0) [] [(3, 0, ''soil_sensor_0'')] ''genetic'' = Inl ValueError"
proof -
  have "[(3, 0, ''soil_sensor_0'')] \<noteq> ([] :: node list)" by simp
  with batch_optimizer_empty_inputs [of "[(3, 0, ''soil_sensor_0'')]" "\<lambda>i. 0" "''genetic''" "[]"]
  show ?thesis by blast
qed

text \<open>The claim as stated fails for one drone and no sensor: the nearest-centroid mode
  returns a result, the partition with one empty list.\<close>

theorem batch_optimizer_no_error_counterexample:
  "k_means_clustering_assignment [(0, 0, ''drone_0'')] [] = Inr [[]]"
  by (simp add: k_means_clustering_assignment_def)

subsection \<open>The schedule\<close>

lemma schedule_sensor_loop:
  assumes "fold_err (schedule_sensor drone_nodes i) sensors sch = Inr sch'"
  shows "sch' = sch @ map (entry_of (drone_nodes ! i) i) sensors
     \<and> (sensors \<noteq> [] \<longrightarrow> i < length drone_nodes)"
  using assms
proof (induction sensors arbitrary: sch)
  case Nil
  then show ?case by simp
next
  case (Cons s rest)
  from Cons.prems obtain sch1 where 1: "schedule_sensor drone_nodes i s sch = Inr sch1"
    and 2: "fold_err (schedule_sensor drone_nodes i) rest sch1 = Inr sch'"
    by (auto split: sum.splits)
  from 1 have i: "i < length drone_nodes"
    and sch1: "sch1 = sch @ [entry_of (drone_nodes ! i) i s]"
    by (auto simp: schedule_sensor_def split: if_splits)
  from Cons.IH [OF 2] sch1 i show ?case by simp
qed

lemma schedule_sensor_total:
  assumes "i < length drone_nodes"
  shows "fold_err (schedule_sensor drone_nodes i) sensors sch
     = Inr (sch @ map (entry_of (drone_nodes ! i) i) sensors)"
  using assms by (induction sensors arbitrary: sch) (simp_all add: schedule_sensor_def)

text \<open>The two nested loops append, drone after drone and sensor after sensor, one entry
  for every sensor of every list.\<close>

lemma schedule_loop_eq:
  assumes "fold_err (\<lambda>(drone_idx, sensors). fold_err (schedule_sensor drone_nodes drone_idx) sensors)
       ps sch = Inr sch'"
  shows "sch' = sch @ concat (map (\<lambda>(drone_idx, sensors).
       map (entry_of (drone_nodes ! drone_idx) drone_idx) sensors) ps)"
  using assms
proof (induction ps arbitrary: sch)
  case Nil
  then show ?case by simp
next
  case (Cons p ps)
  obtain i sensors where p: "p = (i, sensors)" by (cases p)
  from Cons.prems p obtain sch1 where
    1: "fold_err (schedule_sensor drone_nodes i) sensors sch = Inr sch1"
    and 2: "fold_err (\<lambda>(drone_idx, sensors). fold_err (schedule_sensor drone_nodes drone_idx) sensors)
       ps sch1 = Inr sch'"
    by (auto split: sum.splits)
  from schedule_sensor_loop [OF 1] have "sch1 = sch @ map (entry_of (drone_nodes ! i) i) sensors"
    by simp
  with Cons.IH [OF 2] p show ?case by simp
qed

lemma schedule_loop_total:
  assumes "\<forall>(i, sensors) \<in> set ps. i < length drone_nodes"
  shows "fold_err (\<lambda>(drone_idx, sensors). fold_err (schedule_sensor drone_nodes drone_idx) sensors)
       ps sch
     = Inr (sch @ concat (map (\<lambda>(drone_idx, sensors).
         map (entry_of (drone_nodes ! drone_idx) drone_idx) sensors) ps))"
  using assms
proof (induction ps arbitrary: sch)
  case Nil
  then show ?case by simp
next
  case (Cons p ps)
  obtain i sensors where p: "p = (i, sensors)" by (cases p)
  with Cons.prems have i: "i < length drone_nodes"
    and rest: "\<forall>(i, sensors) \<in> set ps. i < length drone_nodes" by simp_all
  from schedule_sensor_total [OF i] Cons.IH [OF rest] p show ?case by simp
qed

lemma schedule_of_total:
  assumes "length assignments \<le> length drone_nodes"
  shows "schedule_of drone_nodes assignments
     = Inr (concat (map (\<lambda>(drone_idx, sensors).
         map (entry_of (drone_nodes ! drone_idx) drone_idx) sensors) (enumerate 0 assignments)))"
proof -
  have "\<forall>(i, sensors) \<in> set (enumerate 0 assignments). i < length drone_nodes"
    using assms by (auto simp: in_set_enumerate_eq)
  from schedule_loop_total [OF this, of "[]"] show ?thesis by (simp add: schedule_of_def)
qed

lemma schedule_length:
  "length (concat (map (\<lambda>(drone_idx, sensors). map (f drone_idx) sensors) ps))
     = length (concat (map snd ps))"
  by (induction ps) auto

lemma generate_schedule_InrD:
  assumes "generate_schedule rng drone_nodes sensor_nodes algorithm = Inr (schedule, assignments)"
  shows "schedule_of drone_nodes assignments = Inr schedule"
    and "algorithm = ''genetic'' \<Longrightarrow>
       genetic_algorithm_optimization rng drone_nodes sensor_nodes = Inr assignments"
    and "algorithm \<noteq> ''genetic'' \<Longrightarrow>
       k_means_clustering_assignment drone_nodes sensor_nodes = Inr assignments"
  using assms by (auto simp: generate_schedule_def split: sum.splits if_splits)

lemma genetic_result_partition:
  assumes "genetic_algorithm_optimization rng drone_nodes sensor_nodes = Inr best"
  shows "exact_partition (length drone_nodes) sensor_nodes best"
proof -
  from assms have "genetic_search population_size generations mutation_rate rng drone_nodes sensor_nodes
      = Inr best" by (simp add: genetic_algorithm_optimization_def)
  then obtain population k where
    e: "evolve population_size mutation_rate rng drone_nodes sensor_nodes generations = Inr (population, k)"
    and b: "best_of drone_nodes population = Inr best"
    by (rule genetic_search_InrD)
  from best_of_Inr [OF b] evolve_inv [OF e] show ?thesis by blast
qed

lemma generate_schedule_partition:
  assumes "generate_schedule rng drone_nodes sensor_nodes algorithm = Inr (schedule, assignments)"
  shows "exact_partition (length drone_nodes) sensor_nodes assignments"
proof (cases "algorithm = ''genetic''")
  case True
  from generate_schedule_InrD(2) [OF assms True] show ?thesis by (rule genetic_result_partition)
next
  case False
  from generate_schedule_InrD(3) [OF assms False] show ?thesis by (rule k_means_partition)
qed

lemma generate_schedule_total:
  assumes "drone_nodes \<noteq> []" and "algorithm = ''genetic'' \<longrightarrow> sensor_nodes \<noteq> []"
  shows "\<exists>schedule assignments.
     generate_schedule rng drone_nodes sensor_nodes algorithm = Inr (schedule, assignments)"
proof -
  have "\<exists>assignments. (if algorithm = ''genetic''
            then genetic_algorithm_optimization rng drone_nodes sensor_nodes
            else k_means_clustering_assignment drone_nodes sensor_nodes) = Inr assignments \<and>
          exact_partition (length drone_nodes) sensor_nodes assignments"
  proof (cases "algorithm = ''genetic''")
    case True
    with assms(2) have "sensor_nodes \<noteq> []" by simp
    moreover have "2 \<le> population_size" by (simp add: population_size_def)
    ultimately obtain best where
      b: "genetic_algorithm_optimization rng drone_nodes sensor_nodes = Inr best"
      unfolding genetic_algorithm_optimization_def
      using genetic_search_total [OF assms(1)] by blast
    from b genetic_result_partition [OF b] True show ?thesis by simp
  next
    case False
    from k_means_eq [OF assms(1), of sensor_nodes] obtain a where
      a: "k_means_clustering_assignment drone_nodes sensor_nodes = Inr a" by blast
    from a k_means_partition [OF a] False show ?thesis by simp
  qed
  then obtain assignments where
    a: "(if algorithm = ''genetic''
            then genetic_algorithm_optimization rng drone_nodes sensor_nodes
            else k_means_clustering_assignment drone_nodes sensor_nodes) = Inr assignments"
    and len: "length assignments = length drone_nodes"
    by (auto simp: exact_partition_def)
  from len have "length assignments \<le> length drone_nodes" by simp
  from schedule_of_total [OF this] a show ?thesis by (simp add: generate_schedule_def)
qed

text \<open>
  Claim C9. In either mode, the schedule that \<^verbatim>\<open>generate_schedule\<close> returns holds, drone
  after drone and sensor after sensor, exactly one entry for every sensor of every list of
  the returned assignment, which covers the sensors exactly: there are as many entries as
  sensors. The entry of a sensor in the list of a drone carries the drone's index, the
  sensor's node id, the Euclidean distance from the drone's position to the sensor's as its
  distance, \<open>distance / 10 + 2\<close> as its \<^verbatim>\<open>collection_time\<close> and \<open>distance * 0.1 + 5\<close> as
  its \<^verbatim>\<open>energy_cost\<close>. With at least one drone (and, in the genetic mode, at least one
  sensor) a schedule is returned.
\<close>

theorem generate_schedule_costs:
  "(\<forall>schedule assignments.
      generate_schedule rng drone_nodes sensor_nodes algorithm = Inr (schedule, assignments) \<longrightarrow>
      schedule = concat (map (\<lambda>(drone_idx, sensors).
          map (entry_of (drone_nodes ! drone_idx) drone_idx) sensors) (enumerate 0 assignments)) \<and>
      exact_partition (length drone_nodes) sensor_nodes assignments \<and>
      length schedule = length sensor_nodes \<and>
      (\<forall>e \<in> set schedule.
         collection_time e = entry_distance e / 10 + 2 \<and>
         energy_cost e = entry_distance e * 0.1 + 5 \<and>
         entry_drone_id e < length drone_nodes \<and> entry_drone_id e < length assignments \<and>
         (\<exists>s \<in> set (assignments ! entry_drone_id e).
            entry_sensor_id e = node_id s \<and>
            entry_distance e = ts_calculate_distance (xy (drone_nodes ! entry_drone_id e)) (xy s)))) \<and>
   (\<forall>drone drone_idx sensor.
      entry_of drone drone_idx sensor =
        \<lparr>entry_drone_id = drone_idx, entry_sensor_id = node_id sensor,
         entry_distance = ts_calculate_distance (xy drone) (xy sensor),
         collection_time = ts_calculate_distance (xy drone) (xy sensor) / 10 + 2,
         energy_cost = ts_calculate_distance (xy drone) (xy sensor) * 0.1 + 5\<rparr>) \<and>
   (drone_nodes \<noteq> [] \<and> (algorithm = ''genetic'' \<longrightarrow> sensor_nodes \<noteq> []) \<longrightarrow>
      (\<exists>schedule assignments.
         generate_schedule rng drone_nodes sensor_nodes algorithm = Inr (schedule, assignments)))"
proof -
  have entry: "\<forall>drone drone_idx sensor.
      entry_of drone drone_idx sensor =
        \<lparr>entry_drone_id = drone_idx, entry_sensor_id = node_id sensor,
         entry_distance = ts_calculate_distance (xy drone) (xy sensor),
         collection_time = ts_calculate_distance (xy drone) (xy sensor) / 10 + 2,
         energy_cost = ts_calculate_distance (xy drone) (xy sensor) * 0.1 + 5\<rparr>"
    by (simp add: entry_of_def Let_def)
  have returned: "\<forall>schedule assignments.
      generate_schedule rng drone_nodes sensor_nodes algorithm = Inr (schedule, assignments) \<longrightarrow>
      schedule = concat (map (\<lambda>(drone_idx, sensors).
          map (entry_of (drone_nodes ! drone_idx) drone_idx) sensors) (enumerate 0 assignments)) \<and>
      exact_partition (length drone_nodes) sensor_nodes assignments \<and>
      length schedule = length sensor_nodes \<and>
      (\<forall>e \<in> set schedule.
         collection_time e = entry_distance e / 10 + 2 \<and>
         energy_cost e = entry_distance e * 0.1 + 5 \<and>
         entry_drone_id e < length drone_nodes \<and> entry_drone_id e < length assignments \<and>
         (\<exists>s \<in> set (assignments ! entry_drone_id e).
            entry_sensor_id e = node_id s \<and>
            entry_distance e = ts_calculate_distance (xy (drone_nodes ! entry_drone_id e)) (xy s)))"
  proof (intro allI impI)
    fix schedule assignments
    assume g: "generate_schedule rng drone_nodes sensor_nodes algorithm = Inr (schedule, assignments)"
    let ?all = "concat (map (\<lambda>(drone_idx, sensors).
          map (entry_of (drone_nodes ! drone_idx) drone_idx) sensors) (enumerate 0 assignments))"
    from g have "schedule_of drone_nodes assignments = Inr schedule"
      by (rule generate_schedule_InrD)
    then have "fold_err (\<lambda>(drone_idx, sensors). fold_err (schedule_sensor drone_nodes drone_idx) sensors)
       (enumerate 0 assignments) [] = Inr schedule" by (simp add: schedule_of_def)
    from schedule_loop_eq [OF this] have eq: "schedule = ?all" by simp
    from g have part: "exact_partition (length drone_nodes) sensor_nodes assignments"
      by (rule generate_schedule_partition)
    then have len: "length assignments = length drone_nodes"
      and ms: "mset (concat assignments) = mset sensor_nodes"
      by (simp_all add: exact_partition_def)
    have "length schedule = length (concat (map snd (enumerate 0 assignments)))"
      unfolding eq by (rule schedule_length)
    also have "\<dots> = length (concat assignments)" by simp
    also have "\<dots> = size (mset (concat assignments))" by simp
    also have "\<dots> = length sensor_nodes" unfolding ms by simp
    finally have count: "length schedule = length sensor_nodes" .
    have each: "\<forall>e \<in> set schedule.
         collection_time e = entry_distance e / 10 + 2 \<and>
         energy_cost e = entry_distance e * 0.1 + 5 \<and>
         entry_drone_id e < length drone_nodes \<and> entry_drone_id e < length assignments \<and>
         (\<exists>s \<in> set (assignments ! entry_drone_id e).
            entry_sensor_id e = node_id s \<and>
            entry_distance e = ts_calculate_distance (xy (drone_nodes ! entry_drone_id e)) (xy s))"
    proof
      fix e assume "e \<in> set schedule"
      then have "e \<in> set ?all" unfolding eq .
      then obtain i sensors s where
        in_enum: "(i, sensors) \<in> set (enumerate 0 assignments)" and s: "s \<in> set sensors"
        and e: "e = entry_of (drone_nodes ! i) i s" by auto
      from in_enum have il: "i < length assignments" and nth: "assignments ! i = sensors"
        by (auto simp: in_set_enumerate_eq)
      from e have "entry_drone_id e = i" "entry_sensor_id e = node_id s"
        "entry_distance e = ts_calculate_distance (xy (drone_nodes ! i)) (xy s)"
        "collection_time e = entry_distance e / 10 + 2"
        "energy_cost e = entry_distance e * 0.1 + 5"
        by (simp_all add: entry_of_def Let_def)
      with il len nth s show "collection_time e = entry_distance e / 10 + 2 \<and>
         energy_cost e = entry_distance e * 0.1 + 5 \<and>
         entry_drone_id e < length drone_nodes \<and> entry_drone_id e < length assignments \<and>
         (\<exists>s \<in> set (assignments ! entry_drone_id e).
            entry_sensor_id e = node_id s \<and>
            entry_distance e = ts_calculate_distance (xy (drone_nodes ! entry_drone_id e)) (xy s))"
        by auto
    qed
    from eq part count each show "schedule = ?all \<and>
      exact_partition (length drone_nodes) sensor_nodes assignments \<and>
      length schedule = length sensor_nodes \<and>
      (\<forall>e \<in> set schedule.
         collection_time e = entry_distance e / 10 + 2 \<and>
         energy_cost e = entry_distance e * 0.1 + 5 \<and>
         entry_drone_id e < length drone_nodes \<and> entry_drone_id e < length assignments \<and>
         (\<exists>s \<in> set (assignments ! entry_drone_id e).
            entry_sensor_id e = node_id s \<and>
            entry_distance e = ts_calculate_distance (xy (drone_nodes ! entry_drone_id e)) (xy s)))"
      by (intro conjI)
  qed
  have total: "drone_nodes \<noteq> [] \<and> (algorithm = ''genetic'' \<longrightarrow> sensor_nodes \<noteq> []) \<longrightarrow>
      (\<exists>schedule assignments.
         generate_schedule rng drone_nodes sensor_nodes algorithm = Inr (schedule, assignments))"
    using generate_schedule_total by blast
  from returned entry total show ?thesis by (intro conjI)
qed

theorem generate_schedule_costs_witness:
  "generate_schedule (\<lambda>i. 0) [(0, 0, ''drone_0''), (6, 0, ''drone_1'')]
      [(3, 0, ''soil_sensor_0''), (5, 0, ''soil_sensor_1'')] ''kmeans''
     = Inr ([\<lparr>entry_drone_id = 0, entry_sensor_id = ''soil_sensor_0'', entry_distance = 3,
               collection_time = 23 / 10, energy_cost = 53 / 10\<rparr>,
             \<lparr>entry_drone_id = 1, entry_sensor_id = ''soil_sensor_1'', entry_distance = 1,
               collection_time = 21 / 10, energy_cost = 51 / 10\<rparr>],
            [[(3, 0, ''soil_sensor_0'')], [(5, 0, ''soil_sensor_1'')]])"
proof -
  let ?D = "[(0, 0, ''drone_0''), (6, 0, ''drone_1'')] :: node list"
  let ?S = "[(3, 0, ''soil_sensor_0''), (5, 0, ''soil_sensor_1'')] :: node list"
  note c = generate_schedule_costs [of "\<lambda>i. 0" ?D ?S "''kmeans''"]
  note returned = c [THEN conjunct1, rule_format]
  note entry = c [THEN conjunct2, THEN conjunct1, rule_format]
  note total = c [THEN conjunct2, THEN conjunct2, rule_format]
  have "?D \<noteq> [] \<and> (''kmeans'' = ''genetic'' \<longrightarrow> ?S \<noteq> [])" by simp
  from total [OF this] obtain schedule assignments where
    g: "generate_schedule (\<lambda>i. 0) ?D ?S ''kmeans'' = Inr (schedule, assignments)" by blast
  have "''kmeans'' \<noteq> ''genetic''" by simp
  from generate_schedule_InrD(3) [OF g this] k_means_example
  have a: "assignments = [[(3, 0, ''soil_sensor_0'')], [(5, 0, ''soil_sensor_1'')]]" by simp
  from returned [OF g] have "schedule = concat (map (\<lambda>(drone_idx, sensors).
          map (entry_of (?D ! drone_idx) drone_idx) sensors) (enumerate 0 assignments))"
    by blast
  then have "schedule = [\<lparr>entry_drone_id = 0, entry_sensor_id = ''soil_sensor_0'', entry_distance = 3,
               collection_time = 23 / 10, energy_cost = 53 / 10\<rparr>,
             \<lparr>entry_drone_id = 1, entry_sensor_id = ''soil_sensor_1'', entry_distance = 1,
               collection_time = 21 / 10, energy_cost = 51 / 10\<rparr>]"
    unfolding a
    by (simp add: entry enumerate_eq_zip upt_rec node_id_def xy_def ts_calculate_distance_def)
  with g a show ?thesis by simp
qed

end
